theory Spec2Isabelle
  imports Complex_Main "HOL-Library.Multiset"
begin

section \<open>Data model\<close>

text \<open>
  Modelled from the spec: the class \<open>ItemPair\<close> (\<open>core/item\<close>) and its \<open>Point\<close> are imported
  by the sources but are not among them. The spec gives an item a stable \<open>index\<close> that aligns
  it with the output of the clustering primitive, a two-dimensional position and an
  append-only log of answers of which only the length is read; the sources read them as
  \<open>index\<close>, \<open>fromPosition\<close> (with \<open>x\<close> and \<open>y\<close>, here the pair) and \<open>answers\<close>.

  An item is a mutable object. Clusters and the todo list hold references to the same
  objects and compare them with \<open>===\<close> (object identity), while the answer log of an item
  grows between two calls of the scheduler. Items are therefore references into a store,
  and the store maps a reference to the fields of the object.
\<close>

type_synonym ref = nat

record ItemPair =
  index :: nat
  fromPosition :: "rat \<times> rat"
  answers :: "bool list"

type_synonym heap = "ref \<Rightarrow> ItemPair"

text \<open>The runtime error of the host language: a property read or a call on \<open>undefined\<close>.\<close>

datatype error = TypeError

section \<open>SelectionAlgorithm.shuffleArray\<close>

text \<open>
  \<open>todo.map(value => ({value, sort: Math.random()})).sort((a, b) => a.sort - b.sort).map(({value}) => value)\<close>.
  The draws of \<open>Math.random()\<close> are a parameter: \<open>rnd i\<close> is the key drawn for the element at
  position \<open>i\<close>. The sort is the stable sort on the keys.
\<close>

definition shuffleArray :: "(nat \<Rightarrow> rat) \<Rightarrow> ref list \<Rightarrow> ref list" where
  "shuffleArray rnd todo =
     map fst (sort_key snd (zip todo (map rnd [0..<length todo])))"

section \<open>Cluster\<close>

record Cluster =
  ID :: int
  sortingID :: int
  timesSeen :: int
  itemPairs :: "ref list"

definition new_Cluster :: "int \<Rightarrow> ref list \<Rightarrow> Cluster" where
  "new_Cluster i items = \<lparr>ID = i, sortingID = i, timesSeen = 0, itemPairs = items\<rparr>"

text \<open>
  \<open>a % n\<close>: the remainder has the sign of \<open>a\<close>. The divisor of \<open>increaseSortingID\<close> is
  \<open>clusters.length\<close> inside a \<open>forEach\<close> over the clusters, so it is not 0.
\<close>

definition js_rem :: "int \<Rightarrow> int \<Rightarrow> int" where
  "js_rem a n = sgn a * (\<bar>a\<bar> mod \<bar>n\<bar>)"

definition increaseSortingID :: "nat \<Rightarrow> Cluster \<Rightarrow> Cluster" where
  "increaseSortingID numberOfClusters c =
     c\<lparr>sortingID := js_rem (sortingID c + 1) (int numberOfClusters)\<rparr>"

definition allWordsSeenOnce :: "heap \<Rightarrow> Cluster \<Rightarrow> bool" where
  "allWordsSeenOnce h c =
     (length (filter (\<lambda>numberOfAnswers. numberOfAnswers - timesSeen c = 1)
        (map (\<lambda>item. int (length (answers (h item)))) (itemPairs c)))
      = length (itemPairs c))"

text \<open>\<open>getTimesSeen\<close> mutates the cluster: the updated cluster is returned with the value.\<close>

definition getTimesSeen :: "heap \<Rightarrow> Cluster \<Rightarrow> Cluster \<times> int" where
  "getTimesSeen h c =
     (let c' = (if allWordsSeenOnce h c then c\<lparr>timesSeen := timesSeen c + 1\<rparr> else c)
      in (c', timesSeen c'))"

section \<open>ClusteringAlgorithm\<close>

text \<open>
  The counters of the scheduler are numbers of the host language. \<open>rounds[roundID]\<close> is
  \<open>undefined\<close> once \<open>roundID\<close> has left the schedule, and a sum with \<open>undefined\<close> is \<open>NaN\<close>;
  both are written \<open>None\<close>: neither is \<open>===\<close> to anything, and every comparison with them
  is false.
\<close>

type_synonym number = "int option"

definition js_add :: "number \<Rightarrow> number \<Rightarrow> number" where
  "js_add a b = (case (a, b) of (Some m, Some n) \<Rightarrow> Some (m + n) | _ \<Rightarrow> None)"

definition js_sub :: "number \<Rightarrow> number \<Rightarrow> number" where
  "js_sub a b = (case (a, b) of (Some m, Some n) \<Rightarrow> Some (m - n) | _ \<Rightarrow> None)"

definition js_gt :: "number \<Rightarrow> number \<Rightarrow> bool" where
  "js_gt a b = (case (a, b) of (Some m, Some n) \<Rightarrow> m > n | _ \<Rightarrow> False)"

definition js_eq :: "number \<Rightarrow> number \<Rightarrow> bool" where
  "js_eq a b = (case (a, b) of (Some m, Some n) \<Rightarrow> m = n | _ \<Rightarrow> False)"

definition rounds_at :: "int list \<Rightarrow> nat \<Rightarrow> number" where
  "rounds_at rs i = (if i < length rs then Some (rs ! i) else None)"

record ClusteringAlgorithm =
  clusters :: "Cluster list"
  allItemPairs :: "ref list"
  rounds :: "int list"
  roundID :: nat
  neededPreviousRounds :: number
  needThisRound :: number
  needToGoToNextRound :: number

text \<open>The constructor; \<open>computeClusters\<close> is the strategy of the subclass.\<close>

definition new_ClusteringAlgorithm ::
  "ref list \<Rightarrow> (ref list \<Rightarrow> Cluster list) \<Rightarrow> ClusteringAlgorithm" where
  "new_ClusteringAlgorithm items computeClusters =
     \<lparr>clusters = computeClusters items,
      allItemPairs = items,
      rounds = [4, 2, 1],
      roundID = 0,
      neededPreviousRounds = Some 0,
      needThisRound = rounds_at [4, 2, 1] 0,
      needToGoToNextRound = rounds_at [4, 2, 1] 0\<rparr>"

text \<open>
  \<open>this.clusters.filter((cluster) => cluster.itemPairs.includes(itemPair))[0]\<close>: the first
  cluster that holds the item, \<open>None\<close> for \<open>undefined\<close>. The cluster is an object of
  \<open>this.clusters\<close>; \<open>clusterPosition\<close> is where it sits, for the write-back of a mutation.
\<close>

definition getClusterOfItem :: "Cluster list \<Rightarrow> ref \<Rightarrow> Cluster option" where
  "getClusterOfItem cs itemPair =
     (case filter (\<lambda>cluster. itemPair \<in> set (itemPairs cluster)) cs of
        [] \<Rightarrow> None
      | c # _ \<Rightarrow> Some c)"

definition clusterPosition :: "Cluster list \<Rightarrow> ref \<Rightarrow> nat" where
  "clusterPosition cs itemPair =
     length (takeWhile (\<lambda>cluster. itemPair \<notin> set (itemPairs cluster)) cs)"

text \<open>
  \<open>todo.sort((a, b) => getClusterOfItem(a).sortingID - getClusterOfItem(b).sortingID)\<close>. With two
  or more elements every element is handed to the comparator, which reads \<open>sortingID\<close> of
  \<open>undefined\<close> for an item of no cluster; with fewer the comparator is never called.
\<close>

definition sortingKey :: "Cluster list \<Rightarrow> ref \<Rightarrow> int" where
  "sortingKey cs a = (case getClusterOfItem cs a of Some c \<Rightarrow> sortingID c | None \<Rightarrow> 0)"

definition sortTodoList :: "Cluster list \<Rightarrow> ref list \<Rightarrow> error + ref list" where
  "sortTodoList cs todo =
     (if 2 \<le> length todo \<and> (\<exists>a \<in> set todo. getClusterOfItem cs a = None)
      then Inl TypeError
      else Inr (sort_key (sortingKey cs) todo))"

text \<open>Lines 125 to 128: the step to the next round.\<close>

definition advanceRound :: "ClusteringAlgorithm \<Rightarrow> ClusteringAlgorithm" where
  "advanceRound s =
     (let nPR = js_add (neededPreviousRounds s) (rounds_at (rounds s) (roundID s));
          rid = roundID s + 1;
          nTR = rounds_at (rounds s) rid;
          nTG = js_add (needToGoToNextRound s) nTR
      in s\<lparr>roundID := rid, neededPreviousRounds := nPR,
            needThisRound := nTR, needToGoToNextRound := nTG\<rparr>)"

text \<open>
  Lines 154 to 163. \<open>previousItem\<close> is \<open>todo[todo.length - 1]\<close> of the list as passed in,
  \<open>None\<close> when that list is empty. On an empty list \<open>todo[0]\<close> is \<open>undefined\<close> too, the branch
  is taken and \<open>todo[0] = currentFirst\<close> stores \<open>undefined\<close> as the only element;
  \<open>endOfSession\<close> then reads \<open>answers\<close> of it, which is the error returned here.
\<close>

definition avoidRepeat :: "ref option \<Rightarrow> ref list \<Rightarrow> error + ref list" where
  "avoidRepeat previousItem todo =
     (case todo of
        [] \<Rightarrow> (if previousItem = None then Inl TypeError else Inr [])
      | [currentFirst] \<Rightarrow> Inr [currentFirst]
      | currentFirst # currentSecond # rest \<Rightarrow>
          (if Some currentFirst = previousItem
           then Inr (currentSecond # currentFirst # rest)
           else Inr (currentFirst # currentSecond # rest)))"

text \<open>\<open>rounds.reduce((a, b) => a + b)\<close> has no initial value: it throws on an empty array.\<close>

definition endOfSession :: "heap \<Rightarrow> ClusteringAlgorithm \<Rightarrow> ref list \<Rightarrow> error + bool" where
  "endOfSession h s todo =
     (case rounds s of
        [] \<Rightarrow> Inl TypeError
      | r # rs \<Rightarrow>
          (let totalTimesSeen = foldl (+) r rs
           in Inr (length (filter (\<lambda>a. a = totalTimesSeen)
                      (map (\<lambda>i. int (length (answers (h i)))) todo)) = length todo
                   \<and> roundID s + 1 = length (rounds s))))"

text \<open>
  \<open>updateToDo\<close>, in the three parts of its steady-state path. The scheduler is mutated in
  place, also by a call that throws, so the scheduler after the call is returned beside the
  outcome: the error thrown or the list returned.

  Lines 124 to 129: the round check on the item just answered.
\<close>

definition roundCheck :: "heap \<Rightarrow> ClusteringAlgorithm \<Rightarrow> ref \<Rightarrow> ClusteringAlgorithm" where
  "roundCheck h s cur =
     (if js_gt (Some (int (length (answers (h cur))))) (needToGoToNextRound s)
      then advanceRound s else s)"

text \<open>
  Lines 136 to 142: \<open>getTimesSeen\<close> on the cluster of the item (written back where the
  cluster sits) and the rotation of every \<open>sortingID\<close>.
\<close>

definition clusterCheck ::
  "heap \<Rightarrow> ClusteringAlgorithm \<Rightarrow> ref \<Rightarrow> Cluster \<Rightarrow> ClusteringAlgorithm" where
  "clusterCheck h s cur currentCluster =
     (let (c', seen) = getTimesSeen h currentCluster;
          s2 = s\<lparr>clusters := (clusters s)[clusterPosition (clusters s) cur := c']\<rparr>;
          timesSeenThisRound = js_sub (Some seen) (neededPreviousRounds s2)
      in if js_eq timesSeenThisRound (needThisRound s2)
         then s2\<lparr>clusters := map (increaseSortingID (length (clusters s2))) (clusters s2)\<rparr>
         else s2)"

text \<open>
  Lines 144 to 169: shuffle, sort, anti-repeat and the end of the session. \<open>rnd\<close> are the
  draws of the shuffle of this call.
\<close>

definition reorder ::
  "(nat \<Rightarrow> rat) \<Rightarrow> heap \<Rightarrow> ClusteringAlgorithm \<Rightarrow> bool \<Rightarrow> ref list \<Rightarrow> error + ref list" where
  "reorder rnd h s allSeenOnce todo =
     (let previousItem = (if todo = [] then None else Some (last todo));
          todo1 = (if allSeenOnce then shuffleArray rnd todo else todo)
      in (case sortTodoList (clusters s) todo1 of
            Inl e \<Rightarrow> Inl e
          | Inr todo2 \<Rightarrow>
              (case avoidRepeat previousItem todo2 of
                 Inl e \<Rightarrow> Inl e
               | Inr todo3 \<Rightarrow>
                   (case endOfSession h s todo3 of
                      Inl e \<Rightarrow> Inl e
                    | Inr finished \<Rightarrow> Inr (if finished then [] else todo3)))))"

definition updateToDo ::
  "(nat \<Rightarrow> rat) \<Rightarrow> heap \<Rightarrow> ClusteringAlgorithm \<Rightarrow> ref list \<Rightarrow> ref option
     \<Rightarrow> ClusteringAlgorithm \<times> (error + ref list)" where
  "updateToDo rnd h s todo currentItemPair =
     (case currentItemPair of
        None \<Rightarrow> (s, sortTodoList (clusters s) todo)
      | Some cur \<Rightarrow>
          if clusters s = [] then (s, sortTodoList (clusters s) todo)
          else
            let s1 = roundCheck h s cur
            in (case getClusterOfItem (clusters s1) cur of
                  None \<Rightarrow> (s1, Inl TypeError)
                | Some currentCluster \<Rightarrow>
                    let allSeenOnce = allWordsSeenOnce h currentCluster;
                        s3 = clusterCheck h s1 cur currentCluster
                    in (s3, reorder rnd h s3 allSeenOnce todo)))"

section \<open>RandomAlgorithm\<close>

record RandomAlgorithm =
  todoLength :: nat
  iteration :: nat
  maxIterations :: nat

definition new_RandomAlgorithm :: "ref list \<Rightarrow> RandomAlgorithm" where
  "new_RandomAlgorithm todo = \<lparr>todoLength = length todo, iteration = 0, maxIterations = 7\<rparr>"

text \<open>
  \<open>iteration % todoLength\<close> is \<open>NaN\<close> for \<open>todoLength = 0\<close>, and \<open>NaN === 0\<close> is false.
\<close>

definition RandomAlgorithm_updateToDo ::
  "(nat \<Rightarrow> rat) \<Rightarrow> RandomAlgorithm \<Rightarrow> ref list \<Rightarrow> RandomAlgorithm \<times> ref list" where
  "RandomAlgorithm_updateToDo rnd s todo =
     (let todo1 = (if iteration s = 0
                      \<or> (todoLength s \<noteq> 0 \<and> iteration s mod todoLength s = 0)
                   then shuffleArray rnd todo else todo);
          s' = s\<lparr>iteration := iteration s + 1\<rparr>
      in (s', if iteration s' - 1 = maxIterations s' * todoLength s' then [] else todo1))"

section \<open>Numbers of the seed loop\<close>

text \<open>
  The seed of the centroid loop is a binary64 number: \<open>0.2\<close> is not a binary fraction, and
  \<open>seed += 0.2\<close> rounds at every step. A finite binary64 value is a rational, and \<open>fl\<close>
  is the rounding of an exact result to binary64: to the nearest number with a significand
  of 53 bits, ties to the even significand. Overflow and subnormal numbers are left out:
  the values of the loop lie between \<open>0.2\<close> and the length of an array.

  \<open>bitLength n\<close> is the number of binary digits of \<open>n\<close>, and \<open>binade q\<close> the exponent
  \<open>e\<close> with \<open>2\<^sup>e \<le> q < 2\<^sup>e\<^sup>+\<^sup>1\<close> of a positive \<open>q\<close>.
\<close>

function bitLength :: "int \<Rightarrow> nat" where
  "bitLength n = (if n \<le> 0 then 0 else Suc (bitLength (n div 2)))"
  by pat_completeness auto
termination
  by (relation "measure nat") auto

declare bitLength.simps [simp del]

definition binade :: "rat \<Rightarrow> int" where
  "binade q =
     (let (n, d) = quotient_of q;
          k = int (bitLength n) - int (bitLength d)
      in if 2 powi k \<le> q then k else k - 1)"

definition roundHalfEven :: "rat \<Rightarrow> int" where
  "roundHalfEven t =
     (let f = \<lfloor>t\<rfloor>; r = t - of_int f
      in if r < 1 / 2 then f else if 1 / 2 < r then f + 1 else if even f then f else f + 1)"

definition fl :: "rat \<Rightarrow> rat" where
  "fl q =
     (if q = 0 then 0
      else let u = 2 powi (binade \<bar>q\<bar> - 52)
           in sgn q * of_int (roundHalfEven (\<bar>q\<bar> / u)) * u)"

section \<open>The cluster assignment strategies\<close>

definition clusterAmount :: nat where
  "clusterAmount = 4"

text \<open>\<open>coordinates\<close>: the pair \<open>[x, y]\<close> of the position of every item.\<close>

definition coordinatesOf :: "heap \<Rightarrow> ref list \<Rightarrow> rat list list" where
  "coordinatesOf h items =
     map (\<lambda>(px, py). [px, py]) (map (\<lambda>item. fromPosition (h item)) items)"

text \<open>An array read \<open>a[i]\<close>: \<open>None\<close> is \<open>undefined\<close>, the read out of range.\<close>

definition elementAt :: "'a list \<Rightarrow> int \<Rightarrow> 'a option" where
  "elementAt a i = (if 0 \<le> i \<and> nat i < length a then Some (a ! nat i) else None)"

text \<open>
  Lines 241 to 245 (and 297 to 301):
  \<open>for (let seed = 0.2; seed <= clusterAmount * 0.2; seed += 0.2)\<close> with the body
  \<open>cents.push(coordinates[Math.floor(seed * coordinates.length)])\<close>. The loop is kept as a
  loop; that it ends, and after how many rounds, is a property of the rounding.
\<close>

partial_function (option) seedLoop ::
  "rat \<Rightarrow> rat \<Rightarrow> 'a list \<Rightarrow> 'a option list \<Rightarrow> 'a option list option" where
  "seedLoop seed limit coordinates cents =
     (if seed \<le> limit
      then seedLoop (fl (seed + fl (1 / 5))) limit coordinates
             (cents @ [elementAt coordinates \<lfloor>fl (seed * of_nat (length coordinates))\<rfloor>])
      else Some cents)"

definition initialCentroids :: "'a list \<Rightarrow> 'a option list option" where
  "initialCentroids coordinates =
     seedLoop (fl (1 / 5)) (fl (of_nat clusterAmount * fl (1 / 5))) coordinates []"

text \<open>
  The clustering primitive \<open>kmeans\<close> is a package outside the repository. It is a parameter:
  a function of the coordinates, the number of clusters and the initial centroids to the
  \<open>indexes\<close> of its result, one label for every point.
\<close>

type_synonym kmeans = "rat list list \<Rightarrow> nat \<Rightarrow> rat list option list \<Rightarrow> int list"

text \<open>
  \<open>self.indexOf(value)\<close>, and the labels in the order of their first occurrence:
  \<open>clustersIndexes.filter((value, index, self) => self.indexOf(value) === index)\<close>.
\<close>

definition indexOf :: "int list \<Rightarrow> int \<Rightarrow> int" where
  "indexOf self v =
     (if v \<in> set self then int (length (takeWhile (\<lambda>w. w \<noteq> v) self)) else - 1)"

definition firstOccurrences :: "int list \<Rightarrow> int list" where
  "firstOccurrences self =
     map snd (filter (\<lambda>(i, v). indexOf self v = int i) (zip [0..<length self] self))"

text \<open>
  Lines 253 to 263 (and 308 to 318): one cluster for every label, with the items whose
  label \<open>clustersIndexes[itemPair.index]\<close> it is.
\<close>

definition clustersOfIndexes :: "heap \<Rightarrow> ref list \<Rightarrow> int list \<Rightarrow> Cluster list" where
  "clustersOfIndexes h items clustersIndexes =
     map (\<lambda>clusterID.
            new_Cluster clusterID
              (filter (\<lambda>itemPair.
                         elementAt clustersIndexes (int (index (h itemPair))) = Some clusterID)
                 items))
       (firstOccurrences clustersIndexes)"

text \<open>\<open>KMeansClusteringAlgorithm.computeClusters\<close>; \<open>None\<close> if the seed loop did not end.\<close>

definition KMeans_computeClusters :: "kmeans \<Rightarrow> heap \<Rightarrow> ref list \<Rightarrow> Cluster list option" where
  "KMeans_computeClusters km h items =
     (let coordinates = coordinatesOf h items
      in case initialCentroids coordinates of
           None \<Rightarrow> None
         | Some cents \<Rightarrow>
             Some (clustersOfIndexes h items (km coordinates clusterAmount cents)))"

text \<open>
  Lines 327 to 335: cluster \<open>i\<close> is the slice of the shuffled items from
  \<open>totalAddedToCluster\<close> on, of the length that is needed.
\<close>

fun fillClusters :: "nat \<Rightarrow> nat \<Rightarrow> nat list \<Rightarrow> ref list \<Rightarrow> Cluster list" where
  "fillClusters i totalAddedToCluster [] shuffledItemPairs = []"
| "fillClusters i totalAddedToCluster (n # neededClusterLengths) shuffledItemPairs =
     new_Cluster (int i) (take n (drop totalAddedToCluster shuffledItemPairs))
     # fillClusters (Suc i) (totalAddedToCluster + n) neededClusterLengths shuffledItemPairs"

text \<open>
  \<open>RandomClusteringAlgorithm.computeClusters\<close>: its lines 286 to 318 are those of the
  k-means strategy, whose clusters give the lengths; \<open>rnd\<close> are the draws of the shuffle.
\<close>

definition Random_computeClusters ::
  "kmeans \<Rightarrow> (nat \<Rightarrow> rat) \<Rightarrow> heap \<Rightarrow> ref list \<Rightarrow> Cluster list option" where
  "Random_computeClusters km rnd h items =
     (case KMeans_computeClusters km h items of
        None \<Rightarrow> None
      | Some kmeansClusters \<Rightarrow>
          (let neededClusterLengths = map (\<lambda>c. length (itemPairs c)) kmeansClusters;
               shuffledItemPairs = shuffleArray rnd items
           in Some (fillClusters 0 0 neededClusterLengths shuffledItemPairs)))"

text \<open>
  The constructors of the two subclasses: \<open>super(itemPairs, computeClusters)\<close> with the
  strategy of the class.
\<close>

definition new_KMeansClusteringAlgorithm ::
  "kmeans \<Rightarrow> heap \<Rightarrow> ref list \<Rightarrow> ClusteringAlgorithm option" where
  "new_KMeansClusteringAlgorithm km h items =
     map_option (\<lambda>cs. new_ClusteringAlgorithm items (\<lambda>_. cs)) (KMeans_computeClusters km h items)"

definition new_RandomClusteringAlgorithm ::
  "kmeans \<Rightarrow> (nat \<Rightarrow> rat) \<Rightarrow> heap \<Rightarrow> ref list \<Rightarrow> ClusteringAlgorithm option" where
  "new_RandomClusteringAlgorithm km rnd h items =
     map_option (\<lambda>cs. new_ClusteringAlgorithm items (\<lambda>_. cs))
       (Random_computeClusters km rnd h items)"

section \<open>Properties of a cluster assignment\<close>

text \<open>
  The index of every item is its position in the list, as the read
  \<open>clustersIndexes[itemPair.index]\<close> takes it to be.
\<close>

definition aligned :: "heap \<Rightarrow> ref list \<Rightarrow> bool" where
  "aligned h items \<longleftrightarrow> map (\<lambda>item. index (h item)) items = [0..<length items]"

text \<open>
  A strict partition: the members of the clusters together are the items, and every item
  is a member of the cluster at exactly one position.
\<close>

definition strictPartition :: "Cluster list \<Rightarrow> ref list \<Rightarrow> bool" where
  "strictPartition cs items \<longleftrightarrow>
     (\<Union>c \<in> set cs. set (itemPairs c)) = set items
     \<and> (\<forall>item \<in> set items. \<exists>!j. j < length cs \<and> item \<in> set (itemPairs (cs ! j)))"

text \<open>Every \<open>sortingID\<close> lies in \<open>[0, numClusters)\<close>.\<close>

definition sortingIDs_ok :: "ClusteringAlgorithm \<Rightarrow> bool" where
  "sortingIDs_ok s \<longleftrightarrow>
     list_all (\<lambda>c. 0 \<le> sortingID c \<and> sortingID c < int (length (clusters s))) (clusters s)"

section \<open>Sessions\<close>

text \<open>
  The caller, \<open>kmeansClusterItemSelect\<close> and \<open>randomClusterItemSelect\<close>: the list returned
  by a call is the list of the next call, \<open>this.todo = this.selectionAlgorithm.updateToDo(this.todo, this.current)\<close>.
  A session is given by the draws, the store and the current item of every call.
\<close>

fun session ::
  "ClusteringAlgorithm \<Rightarrow> ref list \<Rightarrow> ((nat \<Rightarrow> rat) \<times> heap \<times> ref option) list
     \<Rightarrow> ClusteringAlgorithm \<times> (error + ref list)" where
  "session s todo [] = (s, Inr todo)"
| "session s todo ((rnd, h, current) # rest) =
     (case updateToDo rnd h s todo current of
        (s', Inl e) \<Rightarrow> (s', Inl e)
      | (s', Inr todo') \<Rightarrow> session s' todo' rest)"

text \<open>
  \<open>reaches s0 s\<close>: the scheduler \<open>s0\<close> becomes \<open>s\<close> by a sequence of calls of \<open>updateToDo\<close>,
  whatever their arguments and whether they returned or threw.
\<close>

inductive reaches :: "ClusteringAlgorithm \<Rightarrow> ClusteringAlgorithm \<Rightarrow> bool" where
  start: "reaches s0 s0"
| step: "reaches s0 s \<Longrightarrow> reaches s0 (fst (updateToDo rnd h s todo current))"

text \<open>\<open>a <= b\<close> on numbers: false when one of them is \<open>NaN\<close> or \<open>undefined\<close>.\<close>

definition js_le :: "number \<Rightarrow> number \<Rightarrow> bool" where
  "js_le a b = (case (a, b) of (Some m, Some n) \<Rightarrow> m \<le> n | _ \<Rightarrow> False)"

text \<open>The plain scheduler after \<open>k\<close> calls, call \<open>k\<close> with the draws \<open>rnds k\<close>.\<close>

fun calls ::
  "(nat \<Rightarrow> nat \<Rightarrow> rat) \<Rightarrow> nat \<Rightarrow> RandomAlgorithm \<times> ref list \<Rightarrow> RandomAlgorithm \<times> ref list" where
  "calls rnds 0 st = st"
| "calls rnds (Suc k) st =
     (case calls rnds k st of (s, todo) \<Rightarrow> RandomAlgorithm_updateToDo (rnds k) s todo)"

section \<open>Invariants of the round counters\<close>

text \<open>
  What the constructor and the round steps keep: the schedule is \<open>[4, 2, 1]\<close>, the round is
  at most one past the schedule, and the three counters are the sums of the schedule that
  belong to the round; \<open>needToGoToNextRound\<close> is \<open>NaN\<close> once the round has left the schedule.
\<close>

definition counters_ok :: "ClusteringAlgorithm \<Rightarrow> bool" where
  "counters_ok s \<longleftrightarrow>
     rounds s = [4, 2, 1] \<and> roundID s \<le> 3
     \<and> neededPreviousRounds s = Some (sum_list (take (roundID s) [4, 2, 1]))
     \<and> needThisRound s = rounds_at [4, 2, 1] (roundID s)
     \<and> needToGoToNextRound s
         = (if roundID s < 3 then Some (sum_list (take (Suc (roundID s)) [4, 2, 1])) else None)"

definition counters_step :: "ClusteringAlgorithm \<Rightarrow> ClusteringAlgorithm \<Rightarrow> bool" where
  "counters_step s s' \<longleftrightarrow>
     roundID s \<le> roundID s'
     \<and> js_le (neededPreviousRounds s) (neededPreviousRounds s')
     \<and> (roundID s' < length (rounds s') \<longrightarrow>
          js_le (needToGoToNextRound s) (needToGoToNextRound s'))
     \<and> needThisRound s' = rounds_at (rounds s') (roundID s')"

section \<open>Example sessions\<close>

text \<open>
  Concrete inputs for the instances below: a store in which every item has \<open>n\<close> answers and
  its reference as index, and a scheduler with the single cluster of the items 0 and 1, in
  round \<open>rid\<close> with the counters the constructor and the round steps give there.
\<close>

abbreviation ex_heap :: "nat \<Rightarrow> heap" where
  "ex_heap n \<equiv> (\<lambda>r. \<lparr>index = r, fromPosition = (0, 0), answers = replicate n True\<rparr>)"

abbreviation ex_sched :: "nat \<Rightarrow> int \<Rightarrow> ClusteringAlgorithm" where
  "ex_sched rid seen \<equiv>
     \<lparr>clusters = [\<lparr>ID = 0, sortingID = 0, timesSeen = seen, itemPairs = [0, 1]\<rparr>],
      allItemPairs = [0, 1], rounds = [4, 2, 1], roundID = rid,
      neededPreviousRounds = Some (sum_list (take rid [4, 2, 1])),
      needThisRound = rounds_at [4, 2, 1] rid,
      needToGoToNextRound = Some (sum_list (take (rid + 1) [4, 2, 1]))\<rparr>"

text \<open>
  A session on one item in one cluster: the first call before any answer, then \<open>n\<close> calls,
  call \<open>k\<close> after the \<open>k\<close>-th answer to the item.
\<close>

abbreviation one_item_session :: "nat \<Rightarrow> ClusteringAlgorithm \<times> (error + ref list)" where
  "one_item_session n \<equiv>
     session (new_ClusteringAlgorithm [0] (\<lambda>items. [new_Cluster 0 items])) [0]
       ((\<lambda>i. 0, ex_heap 0, None) # map (\<lambda>k. (\<lambda>i. 0, ex_heap k, Some 0)) [1..<Suc n])"

text \<open>
  A store in which item \<open>r\<close> has the index \<open>r\<close> and the position \<open>(r, r)\<close>, and the scheduler
  that the k-means strategy builds on the items 0 and 1 from the labels 0 and 2.
\<close>

abbreviation ex_positions :: heap where
  "ex_positions \<equiv> (\<lambda>r. \<lparr>index = r, fromPosition = (of_nat r, of_nat r), answers = []\<rparr>)"

abbreviation ex_gap_sched :: ClusteringAlgorithm where
  "ex_gap_sched \<equiv>
     \<lparr>clusters = [\<lparr>ID = 0, sortingID = 0, timesSeen = 0, itemPairs = [0]\<rparr>,
                  \<lparr>ID = 2, sortingID = 2, timesSeen = 0, itemPairs = [1]\<rparr>],
      allItemPairs = [0, 1], rounds = [4, 2, 1], roundID = 0,
      neededPreviousRounds = Some 0, needThisRound = Some 4, needToGoToNextRound = Some 4\<rparr>"

section \<open>Properties of the shuffle\<close>

lemma map_fst_zip_draws: "map fst (zip todo (map rnd [0..<length todo])) = todo"
  by (simp add: map_fst_zip)

lemma mset_shuffleArray: "mset (shuffleArray rnd todo) = mset todo"
proof -
  have "mset (shuffleArray rnd todo)
        = image_mset fst (mset (sort_key snd (zip todo (map rnd [0..<length todo]))))"
    by (simp add: shuffleArray_def)
  also have "\<dots> = image_mset fst (mset (zip todo (map rnd [0..<length todo])))"
    by simp
  also have "\<dots> = mset (map fst (zip todo (map rnd [0..<length todo])))"
    by (rule mset_map [symmetric])
  also have "\<dots> = mset todo"
    by (simp only: map_fst_zip_draws)
  finally show ?thesis .
qed

lemma length_shuffleArray: "length (shuffleArray rnd todo) = length todo"
  by (simp add: shuffleArray_def)

text \<open>
  C10. For every list and every outcome of the random draws, \<open>shuffleArray\<close> returns a
  permutation of its input: the same elements with the same multiplicities, hence the same
  length.
\<close>

theorem shuffleArray_permutation:
  "mset (shuffleArray rnd todo) = mset todo \<and> length (shuffleArray rnd todo) = length todo"
  by (simp add: mset_shuffleArray length_shuffleArray)

section \<open>Properties of a cluster\<close>

lemma length_filter_eq_iff: "(length (filter P xs) = length xs) = (\<forall>x \<in> set xs. P x)"
proof
  assume eq: "length (filter P xs) = length xs"
  show "\<forall>x \<in> set xs. P x"
  proof
    fix x assume "x \<in> set xs"
    show "P x"
    proof (rule ccontr)
      assume "\<not> P x"
      with \<open>x \<in> set xs\<close> have "length (filter P xs) < length xs"
        by (rule length_filter_less)
      with eq show False by simp
    qed
  qed
next
  assume "\<forall>x \<in> set xs. P x"
  then have "filter P xs = xs" by (simp add: filter_id_conv)
  then show "length (filter P xs) = length xs" by simp
qed

lemma allWordsSeenOnce_iff:
  "allWordsSeenOnce h c =
     (\<forall>item \<in> set (itemPairs c). int (length (answers (h item))) - timesSeen c = 1)"
proof -
  have "allWordsSeenOnce h c =
        (length (filter (\<lambda>n. n - timesSeen c = 1)
           (map (\<lambda>item. int (length (answers (h item)))) (itemPairs c)))
         = length (map (\<lambda>item. int (length (answers (h item)))) (itemPairs c)))"
    by (simp add: allWordsSeenOnce_def)
  also have "\<dots> = (\<forall>n \<in> set (map (\<lambda>item. int (length (answers (h item)))) (itemPairs c)).
                      n - timesSeen c = 1)"
    by (rule length_filter_eq_iff)
  also have "\<dots> = (\<forall>item \<in> set (itemPairs c). int (length (answers (h item))) - timesSeen c = 1)"
    by simp
  finally show ?thesis .
qed

text \<open>
  C2. \<open>allWordsSeenOnce\<close> holds exactly when every member's number of answers minus
  \<open>timesSeen\<close> is 1. \<open>getTimesSeen\<close> adds 1 to \<open>timesSeen\<close> when the check holds and leaves it
  as it is otherwise, changes no other field of the cluster, and returns the resulting
  \<open>timesSeen\<close>.
\<close>

theorem cluster_lockstep_pass:
  "(allWordsSeenOnce h c \<longleftrightarrow>
      (\<forall>item \<in> set (itemPairs c). int (length (answers (h item))) - timesSeen c = 1))
   \<and> fst (getTimesSeen h c)
       = (if allWordsSeenOnce h c then c\<lparr>timesSeen := timesSeen c + 1\<rparr> else c)
   \<and> snd (getTimesSeen h c) = timesSeen (fst (getTimesSeen h c))"
  using allWordsSeenOnce_iff [of h c] by (simp add: getTimesSeen_def Let_def)

theorem cluster_lockstep_pass_witness:
  "allWordsSeenOnce (\<lambda>r. \<lparr>index = r, fromPosition = (0, 0), answers = [True, False]\<rparr>)
     \<lparr>ID = 0, sortingID = 0, timesSeen = 1, itemPairs = [0, 1, 2]\<rparr>
   \<and> getTimesSeen (\<lambda>r. \<lparr>index = r, fromPosition = (0, 0), answers = [True, False]\<rparr>)
       \<lparr>ID = 0, sortingID = 0, timesSeen = 1, itemPairs = [0, 1, 2]\<rparr>
     = (\<lparr>ID = 0, sortingID = 0, timesSeen = 2, itemPairs = [0, 1, 2]\<rparr>, 2)"
  using cluster_lockstep_pass
    [of "\<lambda>r. \<lparr>index = r, fromPosition = (0, 0), answers = [True, False]\<rparr>"
        "\<lparr>ID = 0, sortingID = 0, timesSeen = 1, itemPairs = [0, 1, 2]\<rparr>"]
  by (simp add: prod_eq_iff)

section \<open>The steady-state path of updateToDo\<close>

lemma advanceRound_clusters: "clusters (advanceRound s) = clusters s"
  by (simp add: advanceRound_def Let_def)

lemma advanceRound_rounds: "rounds (advanceRound s) = rounds s"
  by (simp add: advanceRound_def Let_def)

lemma roundCheck_clusters: "clusters (roundCheck h s cur) = clusters s"
  by (simp add: roundCheck_def advanceRound_clusters)

lemma roundCheck_rounds: "rounds (roundCheck h s cur) = rounds s"
  by (simp add: roundCheck_def advanceRound_rounds)

lemma clusterCheck_counters:
  "rounds (clusterCheck h s cur c) = rounds s"
  "roundID (clusterCheck h s cur c) = roundID s"
  "neededPreviousRounds (clusterCheck h s cur c) = neededPreviousRounds s"
  "needThisRound (clusterCheck h s cur c) = needThisRound s"
  "needToGoToNextRound (clusterCheck h s cur c) = needToGoToNextRound s"
  by (simp_all add: clusterCheck_def Let_def split: prod.splits)

lemma getClusterOfItem_None_iff:
  "(getClusterOfItem cs i = None) = (\<forall>c \<in> set cs. i \<notin> set (itemPairs c))"
proof -
  have "(getClusterOfItem cs i = None) = (filter (\<lambda>c. i \<in> set (itemPairs c)) cs = [])"
    by (simp add: getClusterOfItem_def split: list.splits)
  then show ?thesis by (simp add: filter_empty_conv)
qed

lemma updateToDo_no_cluster:
  assumes "clusters s \<noteq> []" and "getClusterOfItem (clusters s) cur = None"
  shows "updateToDo rnd h s todo (Some cur) = (roundCheck h s cur, Inl TypeError)"
  using assms by (simp add: updateToDo_def Let_def roundCheck_clusters)

lemma updateToDo_steady:
  assumes "clusters s \<noteq> []" and "getClusterOfItem (clusters s) cur = Some c"
  shows "updateToDo rnd h s todo (Some cur)
         = (clusterCheck h (roundCheck h s cur) cur c,
            reorder rnd h (clusterCheck h (roundCheck h s cur) cur c) (allWordsSeenOnce h c) todo)"
  using assms by (simp add: updateToDo_def Let_def roundCheck_clusters)

lemma updateToDo_Inr_cases:
  assumes "clusters s \<noteq> []" and "updateToDo rnd h s todo (Some cur) = (s', Inr q)"
  shows "\<exists>c. getClusterOfItem (clusters s) cur = Some c
             \<and> s' = clusterCheck h (roundCheck h s cur) cur c
             \<and> reorder rnd h s' (allWordsSeenOnce h c) todo = Inr q"
proof (cases "getClusterOfItem (clusters s) cur")
  case None
  with assms show ?thesis by (simp add: updateToDo_no_cluster)
next
  case (Some c)
  with assms show ?thesis by (auto simp: updateToDo_steady)
qed

lemma sortTodoList_Inr: "sortTodoList cs t = Inr t2 \<Longrightarrow> mset t2 = mset t"
  by (auto simp: sortTodoList_def split: if_splits)

lemma avoidRepeat_Inr:
  "avoidRepeat p t = Inr t3 \<Longrightarrow> mset t3 = mset t \<and> (p = None \<longrightarrow> t \<noteq> [])"
  by (auto simp: avoidRepeat_def split: list.splits if_splits)

lemma avoidRepeat_head:
  "avoidRepeat (Some x) t = Inr t3 \<Longrightarrow> distinct t \<Longrightarrow> 2 \<le> length t \<Longrightarrow> hd t3 \<noteq> x"
  by (auto simp: avoidRepeat_def split: list.splits if_splits)

lemma avoidRepeat_single: "avoidRepeat p [a] = Inr t3 \<Longrightarrow> t3 = [a]"
  by (simp add: avoidRepeat_def)

lemma foldl_plus_sum_list: "foldl (+) (a::int) xs = a + sum_list xs"
  by (induction xs arbitrary: a) simp_all

lemma endOfSession_Inr:
  assumes "endOfSession h s t = Inr fin"
  shows "fin = ((\<forall>i \<in> set t. int (length (answers (h i))) = sum_list (rounds s))
                \<and> roundID s + 1 = length (rounds s))"
proof (cases "rounds s")
  case Nil
  with assms show ?thesis by (simp add: endOfSession_def)
next
  case (Cons r rs)
  have "(length (filter (\<lambda>a. a = r + sum_list rs) (map (\<lambda>i. int (length (answers (h i)))) t))
         = length (map (\<lambda>i. int (length (answers (h i)))) t))
        = (\<forall>a \<in> set (map (\<lambda>i. int (length (answers (h i)))) t). a = r + sum_list rs)"
    by (rule length_filter_eq_iff)
  with assms Cons show ?thesis
    by (auto simp: endOfSession_def Let_def foldl_plus_sum_list)
qed

text \<open>
  What a returned list says about the last part of \<open>updateToDo\<close>: the list passed in was
  not empty, and the result is the anti-repeat of a permutation of it, emptied when the
  session has ended.
\<close>

lemma reorder_Inr:
  assumes "reorder rnd h s b todo = Inr q"
  shows "todo \<noteq> [] \<and> (\<exists>todo2 todo3 fin.
           mset todo2 = mset todo
           \<and> avoidRepeat (Some (last todo)) todo2 = Inr todo3
           \<and> endOfSession h s todo3 = Inr fin
           \<and> q = (if fin then [] else todo3))"
proof -
  define todo1 where "todo1 = (if b then shuffleArray rnd todo else todo)"
  define p where "p = (if todo = [] then None else Some (last todo))"
  have m1: "mset todo1 = mset todo"
    by (simp add: todo1_def mset_shuffleArray)
  from assms obtain todo2 where s2: "sortTodoList (clusters s) todo1 = Inr todo2"
    unfolding reorder_def Let_def todo1_def [symmetric]
    by (cases "sortTodoList (clusters s) todo1") auto
  with assms obtain todo3 where a3: "avoidRepeat p todo2 = Inr todo3"
    unfolding reorder_def Let_def todo1_def [symmetric] p_def [symmetric]
    by (cases "avoidRepeat p todo2") auto
  with assms s2 obtain fin where e: "endOfSession h s todo3 = Inr fin"
    unfolding reorder_def Let_def todo1_def [symmetric] p_def [symmetric]
    by (cases "endOfSession h s todo3") auto
  from assms s2 a3 e have q: "q = (if fin then [] else todo3)"
    unfolding reorder_def Let_def todo1_def [symmetric] p_def [symmetric]
    by auto
  have m2: "mset todo2 = mset todo"
    using sortTodoList_Inr [OF s2] m1 by simp
  have ne: "todo \<noteq> []"
  proof
    assume "todo = []"
    then have "p = None" "todo2 = []" using m2 by (simp_all add: p_def)
    with avoidRepeat_Inr [OF a3] show False by simp
  qed
  then have "p = Some (last todo)" by (simp add: p_def)
  with a3 m2 e q ne show ?thesis by blast
qed

text \<open>
  The write-back of \<open>getTimesSeen\<close> goes to the cluster that was found, and the members of
  the clusters never change.
\<close>

lemma getClusterOfItem_position:
  assumes "getClusterOfItem cs i = Some c"
  shows "clusterPosition cs i < length cs \<and> cs ! clusterPosition cs i = c"
proof -
  from assms obtain rest where "filter (\<lambda>cluster. i \<in> set (itemPairs cluster)) cs = c # rest"
    by (auto simp: getClusterOfItem_def split: list.splits)
  then obtain us vs where cs: "cs = us @ c # vs"
    and us: "\<forall>u \<in> set us. i \<notin> set (itemPairs u)" and c: "i \<in> set (itemPairs c)"
    by (auto simp: filter_eq_Cons_iff)
  have "takeWhile (\<lambda>cluster. i \<notin> set (itemPairs cluster)) cs = us"
    using us c by (simp add: cs takeWhile_append2)
  then have "clusterPosition cs i = length us" by (simp add: clusterPosition_def)
  then show ?thesis by (simp add: cs)
qed

lemma itemPairs_getTimesSeen: "itemPairs (fst (getTimesSeen h c)) = itemPairs c"
  by (simp add: getTimesSeen_def Let_def)

lemma clusterCheck_itemPairs:
  assumes "getClusterOfItem (clusters s) cur = Some c"
  shows "map itemPairs (clusters (clusterCheck h s cur c)) = map itemPairs (clusters s)"
proof -
  define c' where "c' = fst (getTimesSeen h c)"
  define cs2 where "cs2 = (clusters s)[clusterPosition (clusters s) cur := c']"
  have "map itemPairs cs2 = (map itemPairs (clusters s))[clusterPosition (clusters s) cur := itemPairs c]"
    by (simp add: cs2_def map_update c'_def itemPairs_getTimesSeen)
  also have "\<dots> = map itemPairs (clusters s)"
    using getClusterOfItem_position [OF assms] by (auto simp: list_update_same_conv)
  finally have m2: "map itemPairs cs2 = map itemPairs (clusters s)" .
  have rot: "map itemPairs (map (increaseSortingID n) cs2) = map itemPairs cs2" for n
    by (simp add: increaseSortingID_def comp_def)
  have "clusters (clusterCheck h s cur c) = cs2
        \<or> clusters (clusterCheck h s cur c) = map (increaseSortingID (length cs2)) cs2"
    by (simp add: clusterCheck_def Let_def cs2_def c'_def split: prod.splits)
  with m2 rot show ?thesis by auto
qed

lemma getClusterOfItem_members:
  assumes "map itemPairs cs = map itemPairs cs'"
  shows "(getClusterOfItem cs a = None) = (getClusterOfItem cs' a = None)"
proof -
  have "(\<forall>c \<in> set cs. a \<notin> set (itemPairs c)) = (\<forall>m \<in> set (map itemPairs cs). a \<notin> set m)"
    by simp
  also have "\<dots> = (\<forall>m \<in> set (map itemPairs cs'). a \<notin> set m)"
    by (simp only: assms)
  also have "\<dots> = (\<forall>c \<in> set cs'. a \<notin> set (itemPairs c))"
    by simp
  finally show ?thesis by (simp only: getClusterOfItem_None_iff)
qed

lemma updateToDo_returns:
  assumes "clusters s \<noteq> []" and "todo \<noteq> []" and "rounds s \<noteq> []"
    and "getClusterOfItem (clusters s) cur \<noteq> None"
    and "\<forall>a \<in> set todo. getClusterOfItem (clusters s) a \<noteq> None"
  shows "\<exists>q. snd (updateToDo rnd h s todo (Some cur)) = Inr q"
proof -
  from assms(4) obtain c where c: "getClusterOfItem (clusters s) cur = Some c" by auto
  define s1 where "s1 = roundCheck h s cur"
  define s3 where "s3 = clusterCheck h s1 cur c"
  define todo1 where "todo1 = (if allWordsSeenOnce h c then shuffleArray rnd todo else todo)"
  have c1: "getClusterOfItem (clusters s1) cur = Some c"
    using c by (simp add: s1_def roundCheck_clusters)
  have m: "map itemPairs (clusters s3) = map itemPairs (clusters s)"
    using clusterCheck_itemPairs [OF c1, of h] by (simp add: s3_def s1_def roundCheck_clusters)
  have r3: "rounds s3 \<noteq> []"
    using assms(3) by (simp add: s3_def s1_def clusterCheck_counters roundCheck_rounds)
  have m1: "mset todo1 = mset todo" by (simp add: todo1_def mset_shuffleArray)
  then have set1: "set todo1 = set todo" by (rule mset_eq_setD)
  have "\<forall>a \<in> set todo1. getClusterOfItem (clusters s3) a \<noteq> None"
    using assms(5) set1 getClusterOfItem_members [OF m] by simp
  then have st: "sortTodoList (clusters s3) todo1 = Inr (sort_key (sortingKey (clusters s3)) todo1)"
    by (auto simp: sortTodoList_def)
  define todo2 where "todo2 = sort_key (sortingKey (clusters s3)) todo1"
  have "mset todo2 = mset todo" using m1 by (simp add: todo2_def)
  with assms(2) have ne2: "todo2 \<noteq> []" by auto
  have "\<exists>todo3. avoidRepeat (Some (last todo)) todo2 = Inr todo3"
    by (simp add: avoidRepeat_def split: list.splits)
  then obtain todo3 where a: "avoidRepeat (Some (last todo)) todo2 = Inr todo3" ..
  have "\<exists>fin. endOfSession h s3 todo3 = Inr fin"
    using r3 by (cases "rounds s3") (simp_all add: endOfSession_def Let_def)
  then obtain fin where e: "endOfSession h s3 todo3 = Inr fin" ..
  have "reorder rnd h s3 (allWordsSeenOnce h c) todo = Inr (if fin then [] else todo3)"
    using assms(2) st a e
    by (simp add: reorder_def Let_def todo1_def [symmetric] todo2_def [symmetric])
  then show ?thesis
    using assms(1) c by (simp add: updateToDo_steady s3_def s1_def)
qed

text \<open>On an empty list the steady-state path returns no list.\<close>

lemma updateToDo_empty_list_throws:
  assumes "clusters s \<noteq> []"
  shows "snd (updateToDo rnd h s [] (Some cur)) = Inl TypeError"
proof (cases "getClusterOfItem (clusters s) cur")
  case None
  with assms show ?thesis by (simp add: updateToDo_no_cluster)
next
  case (Some c)
  have "reorder rnd h s' b [] = Inl TypeError" for s' b
    by (simp add: reorder_def shuffleArray_def sortTodoList_def avoidRepeat_def)
  with assms Some show ?thesis by (simp add: updateToDo_steady)
qed

text \<open>
  C1. In the steady-state case (there are clusters and an item was just answered), the list
  that \<open>updateToDo\<close> returns is empty exactly when every item of the list has as many
  answers as the sum of the round schedule and the current round, after the round check
  of this call, is the last one of the schedule; in every other case the returned list is
  not empty. A list is returned whenever the list passed in is not empty and its items and
  the item just answered are members of clusters (\<open>updateToDo_returns\<close>).
\<close>

theorem updateToDo_empty_iff_finished:
  assumes "clusters s \<noteq> []" and "updateToDo rnd h s todo (Some cur) = (s', Inr q)"
  shows "q = [] \<longleftrightarrow>
           (\<forall>i \<in> set todo. int (length (answers (h i))) = sum_list (rounds s'))
           \<and> roundID s' + 1 = length (rounds s')"
proof -
  from updateToDo_Inr_cases [OF assms] obtain c where
    r: "reorder rnd h s' (allWordsSeenOnce h c) todo = Inr q" by blast
  from reorder_Inr [OF r] obtain todo2 todo3 fin where
    ne: "todo \<noteq> []" and m2: "mset todo2 = mset todo"
    and a: "avoidRepeat (Some (last todo)) todo2 = Inr todo3"
    and e: "endOfSession h s' todo3 = Inr fin"
    and q: "q = (if fin then [] else todo3)" by blast
  have m3: "mset todo3 = mset todo" using avoidRepeat_Inr [OF a] m2 by simp
  then have s3: "set todo3 = set todo" by (rule mset_eq_setD)
  have "todo3 \<noteq> []" using m3 ne by auto
  with q have "(q = []) = fin" by simp
  with endOfSession_Inr [OF e] s3 show ?thesis by simp
qed

text \<open>
  The instance: in the last round, with every item answered seven times, the call on the
  list of both items returns the empty list.
\<close>

theorem updateToDo_empty_iff_finished_witness:
  "clusters (ex_sched 2 6) \<noteq> []
   \<and> updateToDo (\<lambda>i. of_nat i) (ex_heap 7) (ex_sched 2 6) [0, 1] (Some 1)
       = (ex_sched 2 7, Inr [])
   \<and> map (\<lambda>i. int (length (answers (ex_heap 7 i)))) [0, 1] = [7, 7]
   \<and> sum_list (rounds (ex_sched 2 7)) = 7
   \<and> roundID (ex_sched 2 7) + 1 = length (rounds (ex_sched 2 7))"
proof -
  have c: "clusters (ex_sched 2 6) \<noteq> []" by simp
  have e: "updateToDo (\<lambda>i. of_nat i) (ex_heap 7) (ex_sched 2 6) [0, 1] (Some 1)
           = (ex_sched 2 7, Inr [])"
    by code_simp
  from updateToDo_empty_iff_finished [OF c e] c e show ?thesis by simp
qed

text \<open>
  C3. In the steady-state case, when the list passed in has at least two items and no
  item twice, the first item of a returned list that was not emptied is not the item
  presented before, the last item of the list passed in. When the list passed in has one
  item, the returned list is that list: the item is repeated.
\<close>

theorem updateToDo_no_repeat:
  assumes "clusters s \<noteq> []" and "updateToDo rnd h s todo (Some cur) = (s', Inr q)"
    and "q \<noteq> []"
  shows "(2 \<le> length todo \<and> distinct todo \<longrightarrow> hd q \<noteq> last todo)
         \<and> (length todo = 1 \<longrightarrow> q = todo)"
proof -
  from updateToDo_Inr_cases [OF assms(1,2)] obtain c where
    r: "reorder rnd h s' (allWordsSeenOnce h c) todo = Inr q" by blast
  from reorder_Inr [OF r] obtain todo2 todo3 fin where
    m2: "mset todo2 = mset todo"
    and a: "avoidRepeat (Some (last todo)) todo2 = Inr todo3"
    and q: "q = (if fin then [] else todo3)" by blast
  from q assms(3) have q3: "q = todo3" by (simp split: if_splits)
  have l2: "length todo2 = length todo" using m2 by (rule mset_eq_length)
  have "hd q \<noteq> last todo" if "2 \<le> length todo" and "distinct todo"
  proof -
    have "distinct todo2" using mset_eq_imp_distinct_iff [OF m2] that(2) by blast
    with a that(1) l2 show ?thesis unfolding q3 by (simp add: avoidRepeat_head)
  qed
  moreover have "q = todo" if "length todo = 1"
  proof -
    from that obtain x where t: "todo = [x]" by (cases todo) simp_all
    with m2 have "todo2 = [x]" by simp
    with a have "todo3 = [x]" by (simp add: avoidRepeat_single)
    with t q3 show ?thesis by simp
  qed
  ultimately show ?thesis by blast
qed

text \<open>
  The instance: the shuffle puts the item presented before, item 1, in front, and the
  anti-repeat swaps it with item 0.
\<close>

theorem updateToDo_no_repeat_witness:
  "clusters (ex_sched 0 0) \<noteq> []
   \<and> updateToDo (\<lambda>i. - of_nat i) (ex_heap 1) (ex_sched 0 0) [0, 1] (Some 1)
       = (ex_sched 0 1, Inr [0, 1])
   \<and> shuffleArray (\<lambda>i. - of_nat i) [0, 1] = [1, 0]
   \<and> hd [0, 1] \<noteq> last [0, 1 :: nat]"
proof -
  have c: "clusters (ex_sched 0 0) \<noteq> []" by simp
  have e: "updateToDo (\<lambda>i. - of_nat i) (ex_heap 1) (ex_sched 0 0) [0, 1] (Some 1)
           = (ex_sched 0 1, Inr [0, 1])"
    by code_simp
  have sh: "shuffleArray (\<lambda>i. - of_nat i) [0, 1] = [1, 0]"
    by code_simp
  have n: "[0, 1] \<noteq> ([] :: nat list)" by simp
  from updateToDo_no_repeat [OF c e n] c e sh show ?thesis by simp
qed

text \<open>
  C7. In the steady-state case, when the item just answered is in no cluster of the
  scheduler, \<open>updateToDo\<close> returns no list: it throws, after the round check, on the call
  of \<open>allWordsSeenOnce\<close> on the cluster that was not found.
\<close>

theorem updateToDo_unknown_item_throws:
  assumes "clusters s \<noteq> []" and "\<forall>c \<in> set (clusters s). cur \<notin> set (itemPairs c)"
  shows "updateToDo rnd h s todo (Some cur) = (roundCheck h s cur, Inl TypeError)"
  using assms by (simp add: updateToDo_no_cluster getClusterOfItem_None_iff)

theorem updateToDo_unknown_item_throws_witness:
  "clusters (ex_sched 0 0) \<noteq> []
   \<and> getClusterOfItem (clusters (ex_sched 0 0)) 5 = None
   \<and> updateToDo (\<lambda>i. of_nat i) (ex_heap 1) (ex_sched 0 0) [0, 1] (Some 5)
       = (ex_sched 0 0, Inl TypeError)"
proof -
  have c: "clusters (ex_sched 0 0) \<noteq> []" by simp
  have m: "\<forall>c \<in> set (clusters (ex_sched 0 0)). 5 \<notin> set (itemPairs c)" by simp
  have g: "getClusterOfItem (clusters (ex_sched 0 0)) 5 = None"
    by (simp add: getClusterOfItem_def)
  have r: "roundCheck (ex_heap 1) (ex_sched 0 0) 5 = ex_sched 0 0"
    by (simp add: roundCheck_def js_gt_def)
  from updateToDo_unknown_item_throws [OF c m, of "\<lambda>i. of_nat i" "ex_heap 1" "[0, 1]"] c g r
  show ?thesis by simp
qed

lemma getClusterOfItem_Some_mem: "getClusterOfItem cs i = Some c \<Longrightarrow> c \<in> set cs"
proof -
  assume "getClusterOfItem cs i = Some c"
  then obtain rest where "filter (\<lambda>cluster. i \<in> set (itemPairs cluster)) cs = c # rest"
    by (auto simp: getClusterOfItem_def split: list.splits)
  then have "c \<in> set (filter (\<lambda>cluster. i \<in> set (itemPairs cluster)) cs)" by simp
  then show ?thesis by simp
qed

lemma fst_updateToDo_cluster_cases:
  "fst (updateToDo rnd h s todo current) = s
   \<or> (\<exists>cur. current = Some cur \<and>
        (fst (updateToDo rnd h s todo current) = roundCheck h s cur
         \<or> (\<exists>c \<in> set (clusters s). fst (updateToDo rnd h s todo current)
                  = clusterCheck h (roundCheck h s cur) cur c)))"
proof (cases current)
  case None
  then show ?thesis by (simp add: updateToDo_def)
next
  case (Some cur)
  show ?thesis
  proof (cases "clusters s = []")
    case True
    with Some show ?thesis by (simp add: updateToDo_def)
  next
    case False
    show ?thesis
    proof (cases "getClusterOfItem (clusters s) cur")
      case None
      with False Some show ?thesis by (simp add: updateToDo_no_cluster)
    next
      case (Some c)
      then have "c \<in> set (clusters s)" by (rule getClusterOfItem_Some_mem)
      with False Some \<open>current = Some cur\<close> show ?thesis
        by (auto simp: updateToDo_steady)
    qed
  qed
qed

section \<open>The plain scheduler\<close>

lemma calls_Suc_eq:
  "calls rnds (Suc k) st
   = RandomAlgorithm_updateToDo (rnds k) (fst (calls rnds k st)) (snd (calls rnds k st))"
  by (simp split: prod.splits)

lemma RandomAlgorithm_step:
  "RandomAlgorithm_updateToDo rnd \<lparr>todoLength = 3, iteration = n, maxIterations = 7\<rparr> t
   = (\<lparr>todoLength = 3, iteration = Suc n, maxIterations = 7\<rparr>,
      if n = 21 then [] else if n mod 3 = 0 then shuffleArray rnd t else t)"
  by (auto simp: RandomAlgorithm_updateToDo_def Let_def)

lemma calls_state:
  assumes "length todo = 3"
  shows "fst (calls rnds k (new_RandomAlgorithm todo, todo))
         = \<lparr>todoLength = 3, iteration = k, maxIterations = 7\<rparr>"
proof (induction k)
  case 0
  show ?case using assms by (simp add: new_RandomAlgorithm_def)
next
  case (Suc k)
  then show ?case
    by (simp add: calls_Suc_eq RandomAlgorithm_step del: calls.simps)
qed

lemma calls_step:
  assumes "length todo = 3"
  shows "snd (calls rnds (Suc k) (new_RandomAlgorithm todo, todo))
         = (if k = 21 then []
            else if k mod 3 = 0
              then shuffleArray (rnds k) (snd (calls rnds k (new_RandomAlgorithm todo, todo)))
              else snd (calls rnds k (new_RandomAlgorithm todo, todo)))"
  using calls_state [OF assms, of rnds k]
  by (simp add: calls_Suc_eq RandomAlgorithm_step del: calls.simps)

lemma calls_mset:
  assumes "length todo = 3" and "k \<le> 21"
  shows "mset (snd (calls rnds k (new_RandomAlgorithm todo, todo))) = mset todo"
  using assms(2)
proof (induction k)
  case 0
  show ?case by simp
next
  case (Suc k)
  then show ?case by (simp add: calls_step [OF assms(1)] mset_shuffleArray del: calls.simps)
qed

text \<open>
  C8. The plain scheduler made for a list of three items (\<open>todoLength = 3\<close>,
  \<open>maxIterations = 7\<close>), called again and again on the list it returned: each of the calls
  1 to 21 returns a non-empty list, which is the shuffle of the list passed in when the
  number of calls made before is 0 or a multiple of 3 and the list passed in otherwise;
  call 22 returns the empty list.
\<close>

theorem RandomAlgorithm_exhaustion:
  assumes "length todo = 3"
  shows "(\<forall>k \<in> {1..21}.
            snd (calls rnds k (new_RandomAlgorithm todo, todo)) \<noteq> []
            \<and> snd (calls rnds k (new_RandomAlgorithm todo, todo))
                = (if (k - 1) mod 3 = 0
                   then shuffleArray (rnds (k - 1))
                          (snd (calls rnds (k - 1) (new_RandomAlgorithm todo, todo)))
                   else snd (calls rnds (k - 1) (new_RandomAlgorithm todo, todo))))
         \<and> snd (calls rnds 22 (new_RandomAlgorithm todo, todo)) = []"
proof (intro conjI ballI)
  fix k :: nat assume k: "k \<in> {1..21}"
  then obtain j where j: "k = Suc j" "j < 21" by (cases k) auto
  have "mset (snd (calls rnds k (new_RandomAlgorithm todo, todo))) = mset todo"
    using k by (intro calls_mset [OF assms]) simp
  moreover have "todo \<noteq> []" using assms by auto
  ultimately show "snd (calls rnds k (new_RandomAlgorithm todo, todo)) \<noteq> []" by auto
  show "snd (calls rnds k (new_RandomAlgorithm todo, todo))
        = (if (k - 1) mod 3 = 0
           then shuffleArray (rnds (k - 1))
                  (snd (calls rnds (k - 1) (new_RandomAlgorithm todo, todo)))
           else snd (calls rnds (k - 1) (new_RandomAlgorithm todo, todo)))"
    using j by (simp add: calls_step [OF assms] del: calls.simps)
next
  have e: "(22::nat) = Suc 21" by simp
  have "snd (calls rnds (Suc 21) (new_RandomAlgorithm todo, todo)) = []"
    by (simp only: calls_step [OF assms] simp_thms if_True)
  then show "snd (calls rnds 22 (new_RandomAlgorithm todo, todo)) = []"
    by (simp only: e)
qed

theorem RandomAlgorithm_exhaustion_witness:
  "length [0, 1, 2 :: nat] = 3
   \<and> snd (calls (\<lambda>k i. of_nat i) 21 (new_RandomAlgorithm [0, 1, 2], [0, 1, 2])) = [0, 1, 2]
   \<and> snd (calls (\<lambda>k i. of_nat i) 22 (new_RandomAlgorithm [0, 1, 2], [0, 1, 2])) = []"
proof -
  have l: "length [0, 1, 2 :: nat] = 3" by simp
  have e: "snd (calls (\<lambda>k i. of_nat i) 21 (new_RandomAlgorithm [0, 1, 2], [0, 1, 2])) = [0, 1, 2]"
    by code_simp
  from RandomAlgorithm_exhaustion [OF l, of "\<lambda>k i. of_nat i"] l e show ?thesis by simp
qed

section \<open>The round counters\<close>

lemma counters_ok_new: "counters_ok (new_ClusteringAlgorithm items computeClusters)"
  by (simp add: counters_ok_def new_ClusteringAlgorithm_def rounds_at_def)

lemma counters_ok_advanceRound:
  assumes "counters_ok s" and "roundID s < 3"
  shows "counters_ok (advanceRound s)"
proof -
  from assms(2) have "roundID s = 0 \<or> roundID s = 1 \<or> roundID s = 2" by arith
  then show ?thesis
  proof (elim disjE)
    assume "roundID s = 0"
    with assms(1) show ?thesis
      by (simp add: counters_ok_def advanceRound_def Let_def rounds_at_def js_add_def)
  next
    assume "roundID s = 1"
    with assms(1) show ?thesis
      by (simp add: counters_ok_def advanceRound_def Let_def rounds_at_def js_add_def)
  next
    assume "roundID s = 2"
    with assms(1) show ?thesis
      by (simp add: counters_ok_def advanceRound_def Let_def rounds_at_def js_add_def)
  qed
qed

lemma roundCheck_cases:
  assumes "counters_ok s"
  shows "roundCheck h s cur = s \<or> (roundID s < 3 \<and> roundCheck h s cur = advanceRound s)"
  using assms
  by (auto simp: roundCheck_def js_gt_def counters_ok_def split: option.splits if_splits)

lemma counters_ok_roundCheck: "counters_ok s \<Longrightarrow> counters_ok (roundCheck h s cur)"
  using roundCheck_cases [of s h cur] counters_ok_advanceRound [of s] by auto

lemma counters_ok_clusterCheck: "counters_ok s \<Longrightarrow> counters_ok (clusterCheck h s cur c)"
  by (simp add: counters_ok_def clusterCheck_counters)

lemma counters_ok_updateToDo:
  assumes "counters_ok s"
  shows "counters_ok (fst (updateToDo rnd h s todo current))"
  using fst_updateToDo_cluster_cases [of rnd h s todo current] assms
  by (auto simp: counters_ok_roundCheck counters_ok_clusterCheck)

lemma reaches_counters_ok: "reaches s0 s \<Longrightarrow> counters_ok s0 \<Longrightarrow> counters_ok s"
  by (induction rule: reaches.induct) (simp_all add: counters_ok_updateToDo)

lemma counters_step_refl: "counters_ok s \<Longrightarrow> counters_step s s"
  by (auto simp: counters_step_def counters_ok_def js_le_def)

lemma counters_step_advanceRound:
  assumes "counters_ok s" and "roundID s < 3"
  shows "counters_step s (advanceRound s)"
proof -
  from assms(2) have "roundID s = 0 \<or> roundID s = 1 \<or> roundID s = 2" by arith
  then show ?thesis
  proof (elim disjE)
    assume "roundID s = 0"
    with assms(1) show ?thesis
      by (simp add: counters_step_def counters_ok_def advanceRound_def Let_def rounds_at_def
          js_add_def js_le_def)
  next
    assume "roundID s = 1"
    with assms(1) show ?thesis
      by (simp add: counters_step_def counters_ok_def advanceRound_def Let_def rounds_at_def
          js_add_def js_le_def)
  next
    assume "roundID s = 2"
    with assms(1) show ?thesis
      by (simp add: counters_step_def counters_ok_def advanceRound_def Let_def rounds_at_def
          js_add_def js_le_def)
  qed
qed

lemma counters_step_roundCheck: "counters_ok s \<Longrightarrow> counters_step s (roundCheck h s cur)"
  using roundCheck_cases [of s h cur] counters_step_advanceRound [of s] counters_step_refl [of s]
  by auto

lemma counters_step_clusterCheck:
  "counters_step s s1 \<Longrightarrow> counters_step s (clusterCheck h s1 cur c)"
  by (simp add: counters_step_def clusterCheck_counters)

text \<open>
  C4, as the code has it. Over every call of \<open>updateToDo\<close> in a session, \<open>roundID\<close> and
  \<open>neededPreviousRounds\<close> do not decrease, and \<open>needToGoToNextRound\<close> does not decrease as
  long as the round after the call is a round of the schedule. \<open>needThisRound\<close> is not
  monotone: after every call it is the entry \<open>rounds[roundID]\<close> of the schedule \<open>[4, 2, 1]\<close>.
\<close>

theorem round_counters_monotone:
  assumes "reaches (new_ClusteringAlgorithm items computeClusters) s"
  shows "roundID s \<le> roundID (fst (updateToDo rnd h s todo current))
     \<and> js_le (neededPreviousRounds s)
         (neededPreviousRounds (fst (updateToDo rnd h s todo current)))
     \<and> (roundID (fst (updateToDo rnd h s todo current))
          < length (rounds (fst (updateToDo rnd h s todo current))) \<longrightarrow>
          js_le (needToGoToNextRound s)
            (needToGoToNextRound (fst (updateToDo rnd h s todo current))))
     \<and> needThisRound (fst (updateToDo rnd h s todo current))
         = rounds_at (rounds (fst (updateToDo rnd h s todo current)))
             (roundID (fst (updateToDo rnd h s todo current)))"
proof -
  have ok: "counters_ok s" using assms counters_ok_new by (rule reaches_counters_ok)
  have "counters_step s (fst (updateToDo rnd h s todo current))"
    using fst_updateToDo_cluster_cases [of rnd h s todo current]
      counters_step_refl [OF ok] counters_step_roundCheck [OF ok]
      counters_step_clusterCheck [of s]
    by metis
  then show ?thesis by (simp add: counters_step_def)
qed

text \<open>The instance: the first call of a session with an item that has five answers.\<close>

theorem round_counters_monotone_witness:
  "reaches (new_ClusteringAlgorithm [0] (\<lambda>items. [new_Cluster 0 items]))
     (new_ClusteringAlgorithm [0] (\<lambda>items. [new_Cluster 0 items]))
   \<and> roundID (fst (updateToDo (\<lambda>i. 0) (ex_heap 5)
        (new_ClusteringAlgorithm [0] (\<lambda>items. [new_Cluster 0 items])) [0] (Some 0))) = 1
   \<and> neededPreviousRounds (fst (updateToDo (\<lambda>i. 0) (ex_heap 5)
        (new_ClusteringAlgorithm [0] (\<lambda>items. [new_Cluster 0 items])) [0] (Some 0))) = Some 4
   \<and> needToGoToNextRound (fst (updateToDo (\<lambda>i. 0) (ex_heap 5)
        (new_ClusteringAlgorithm [0] (\<lambda>items. [new_Cluster 0 items])) [0] (Some 0))) = Some 6
   \<and> needThisRound (fst (updateToDo (\<lambda>i. 0) (ex_heap 5)
        (new_ClusteringAlgorithm [0] (\<lambda>items. [new_Cluster 0 items])) [0] (Some 0))) = Some 2"
proof -
  have r: "reaches (new_ClusteringAlgorithm [0] (\<lambda>items. [new_Cluster 0 items]))
             (new_ClusteringAlgorithm [0] (\<lambda>items. [new_Cluster 0 items]))"
    by (rule reaches.start)
  have e: "fst (updateToDo (\<lambda>i. 0) (ex_heap 5)
             (new_ClusteringAlgorithm [0] (\<lambda>items. [new_Cluster 0 items])) [0] (Some 0))
           = \<lparr>clusters = [\<lparr>ID = 0, sortingID = 0, timesSeen = 0, itemPairs = [0]\<rparr>],
              allItemPairs = [0], rounds = [4, 2, 1], roundID = 1,
              neededPreviousRounds = Some 4, needThisRound = Some 2,
              needToGoToNextRound = Some 6\<rparr>"
    by code_simp
  from round_counters_monotone [OF r, of "\<lambda>i. 0" "ex_heap 5" "[0]" "Some 0"] r e
  show ?thesis by simp
qed

text \<open>
  Against C4 as stated: in the session on one item, the call after the fifth answer takes
  \<open>needThisRound\<close> from 4 down to 2.
\<close>

theorem needThisRound_decreases:
  "fst (one_item_session 4)
     = \<lparr>clusters = [\<lparr>ID = 0, sortingID = 0, timesSeen = 4, itemPairs = [0]\<rparr>],
        allItemPairs = [0], rounds = [4, 2, 1], roundID = 0,
        neededPreviousRounds = Some 0, needThisRound = Some 4,
        needToGoToNextRound = Some 4\<rparr>
   \<and> snd (one_item_session 4) = Inr [0]
   \<and> needThisRound (fst (updateToDo (\<lambda>i. 0) (ex_heap 5) (fst (one_item_session 4)) [0] (Some 0)))
       = Some 2
   \<and> \<not> js_le (needThisRound (fst (one_item_session 4)))
         (needThisRound
            (fst (updateToDo (\<lambda>i. 0) (ex_heap 5) (fst (one_item_session 4)) [0] (Some 0))))"
  by code_simp

section \<open>The seed loop\<close>

lemma bitLength_pos: "0 < n \<Longrightarrow> 0 < bitLength n"
  by (subst bitLength.simps) simp

lemma bitLength_bounds: "0 < n \<Longrightarrow> 2 ^ (bitLength n - 1) \<le> n \<and> n < 2 ^ bitLength n"
proof (induction n rule: bitLength.induct)
  case (1 n)
  show ?case
  proof (cases "n div 2 = 0")
    case True
    with "1.prems" have "n = 1" by presburger
    then show ?thesis by (simp add: bitLength.simps)
  next
    case False
    with "1.prems" have pos: "0 < n div 2" by presburger
    with "1.IH" "1.prems" have ih: "2 ^ (bitLength (n div 2) - 1) \<le> n div 2"
      "n div 2 < 2 ^ bitLength (n div 2)" by simp_all
    have b: "bitLength n = Suc (bitLength (n div 2))"
      using "1.prems" by (subst bitLength.simps) simp
    from bitLength_pos [OF pos] obtain m where m: "bitLength (n div 2) = Suc m"
      by (cases "bitLength (n div 2)") simp_all
    from ih(1) m have "2 * 2 ^ m \<le> 2 * (n div 2)" by simp
    then have lo: "(2::int) ^ Suc m \<le> n" by simp
    from ih(2) have "2 * (n div 2) + 2 \<le> 2 * 2 ^ bitLength (n div 2)" by simp
    then have hi: "n < 2 ^ Suc (bitLength (n div 2))" by simp
    from lo hi show ?thesis by (simp add: b m)
  qed
qed

lemma binade_bounds:
  assumes "0 < q"
  shows "2 powi (binade q) \<le> q \<and> q < 2 powi (binade q + 1)"
proof -
  obtain n d where nd: "quotient_of q = (n, d)" by (cases "quotient_of q")
  have d: "0 < d" using nd by (rule quotient_of_denom_pos)
  have q: "q = of_int n / of_int d" using nd by (rule quotient_of_div)
  have n: "0 < n" using assms d unfolding q by (simp add: zero_less_divide_iff)
  define bn where "bn = bitLength n"
  define bd where "bd = bitLength d"
  define k where "k = int bn - int bd"
  have bnp: "0 < bn" and bdp: "0 < bd" using n d by (simp_all add: bn_def bd_def bitLength_pos)
  have nb: "(2::rat) ^ (bn - 1) \<le> of_int n" "of_int n < (2::rat) ^ bn"
  proof -
    from bitLength_bounds [OF n] have "2 ^ (bn - 1) \<le> n" "n < 2 ^ bn" by (simp_all add: bn_def)
    then have "(of_int (2 ^ (bn - 1)) :: rat) \<le> of_int n" "(of_int n :: rat) < of_int (2 ^ bn)"
      by (simp_all only: of_int_le_iff of_int_less_iff)
    then show "(2::rat) ^ (bn - 1) \<le> of_int n" "of_int n < (2::rat) ^ bn" by simp_all
  qed
  have db: "(2::rat) ^ (bd - 1) \<le> of_int d" "of_int d < (2::rat) ^ bd"
  proof -
    from bitLength_bounds [OF d] have "2 ^ (bd - 1) \<le> d" "d < 2 ^ bd" by (simp_all add: bd_def)
    then have "(of_int (2 ^ (bd - 1)) :: rat) \<le> of_int d" "(of_int d :: rat) < of_int (2 ^ bd)"
      by (simp_all only: of_int_le_iff of_int_less_iff)
    then show "(2::rat) ^ (bd - 1) \<le> of_int d" "of_int d < (2::rat) ^ bd" by simp_all
  qed
  have dpos: "(0::rat) < of_int d" using d by simp
  have npos: "(0::rat) < of_int n" using n by simp
  have e1: "(2::rat) powi (k - 1) = 2 ^ (bn - 1) / 2 ^ bd"
  proof -
    have "k - 1 = int (bn - 1) - int bd" using bnp by (simp add: k_def)
    then show ?thesis by (simp add: power_int_diff)
  qed
  have e2: "(2::rat) powi (k + 1) = 2 ^ bn / 2 ^ (bd - 1)"
  proof -
    have "k + 1 = int bn - int (bd - 1)" using bdp by (simp add: k_def)
    then show ?thesis by (simp add: power_int_diff)
  qed
  have lo: "(2::rat) powi (k - 1) \<le> q"
  proof -
    have "(2::rat) ^ (bn - 1) / 2 ^ bd \<le> of_int n / 2 ^ bd"
      using nb(1) by (simp add: divide_right_mono)
    also have "\<dots> \<le> of_int n / of_int d"
      using db(2) dpos npos by (simp add: frac_le)
    finally show ?thesis by (simp add: e1 q)
  qed
  have hi: "q < (2::rat) powi (k + 1)"
  proof -
    have "of_int n / of_int d < (2::rat) ^ bn / of_int d"
      using nb(2) dpos by (simp add: divide_strict_right_mono)
    also have "\<dots> \<le> 2 ^ bn / 2 ^ (bd - 1)"
      using db(1) by (simp add: frac_le)
    finally show ?thesis by (simp add: e2 q)
  qed
  have b: "binade q = (if 2 powi k \<le> q then k else k - 1)"
    by (simp add: binade_def nd k_def bn_def bd_def Let_def)
  show ?thesis
  proof (cases "2 powi k \<le> q")
    case True
    with b hi show ?thesis by simp
  next
    case False
    with b lo show ?thesis by simp
  qed
qed

lemma roundHalfEven_ge: "of_int m \<le> t \<Longrightarrow> m \<le> roundHalfEven t"
proof -
  assume "of_int m \<le> t"
  then have "m \<le> \<lfloor>t\<rfloor>" by (simp add: le_floor_iff)
  then show ?thesis by (simp add: roundHalfEven_def Let_def)
qed

lemma roundHalfEven_le: "t \<le> of_int m \<Longrightarrow> roundHalfEven t \<le> m"
proof (cases "t = of_int m")
  case True
  then show ?thesis by (simp add: roundHalfEven_def Let_def)
next
  case False
  assume "t \<le> of_int m"
  with False have "t < of_int m" by simp
  then have "\<lfloor>t\<rfloor> < m" by (simp add: floor_less_iff)
  then show ?thesis by (simp add: roundHalfEven_def Let_def)
qed

lemma fl_grid:
  assumes "0 < x" and "x < 2 ^ 49"
  shows "(of_int j / 16 \<le> x \<longrightarrow> of_int j / 16 \<le> fl x)
         \<and> (x \<le> of_int j / 16 \<longrightarrow> fl x \<le> of_int j / 16)"
proof -
  define e where "e = binade x"
  define u :: rat where "u = 2 powi (e - 52)"
  have upos: "0 < u" by (simp add: u_def)
  have "(2::rat) powi e \<le> x" using binade_bounds [OF assms(1)] by (simp add: e_def)
  with assms(2) have "(2::rat) powi e < 2 powi 49" by simp
  then have e49: "e < 49"
    by (rule power_int_le_imp_less_exp [rotated]) simp_all
  define k where "k = nat (48 - e)"
  have "(2::rat) powi (-4) = 2 powi (e - 52) * 2 powi (int k)"
    using e49 by (simp add: k_def power_int_add [symmetric])
  then have g: "(1::rat) / 16 = u * 2 ^ k"
    by (simp add: u_def power_int_minus_divide)
  have grid: "of_int j / 16 = of_int (j * 2 ^ k) * u"
  proof -
    have "of_int j / 16 = of_int j * ((1::rat) / 16)" by simp
    also have "\<dots> = of_int (j * 2 ^ k) * u" by (simp only: g) simp
    finally show ?thesis .
  qed
  have f: "fl x = of_int (roundHalfEven (x / u)) * u"
    using assms(1) by (simp add: fl_def Let_def u_def e_def)
  show ?thesis
  proof (intro conjI impI)
    assume "of_int j / 16 \<le> x"
    then have "of_int (j * 2 ^ k) * u \<le> x" by (simp only: grid)
    then have "of_int (j * 2 ^ k) \<le> x / u" using upos by (simp add: pos_le_divide_eq)
    then have "j * 2 ^ k \<le> roundHalfEven (x / u)" by (rule roundHalfEven_ge)
    then have "(of_int (j * 2 ^ k) :: rat) \<le> of_int (roundHalfEven (x / u))"
      by (simp only: of_int_le_iff)
    then have "of_int (j * 2 ^ k) * u \<le> of_int (roundHalfEven (x / u)) * u"
      using upos by (simp only: mult_le_cancel_right) simp
    then show "of_int j / 16 \<le> fl x" by (simp only: grid f)
  next
    assume "x \<le> of_int j / 16"
    then have "x \<le> of_int (j * 2 ^ k) * u" by (simp only: grid)
    then have "x / u \<le> of_int (j * 2 ^ k)" using upos by (simp add: pos_divide_le_eq)
    then have "roundHalfEven (x / u) \<le> j * 2 ^ k" by (rule roundHalfEven_le)
    then have "(of_int (roundHalfEven (x / u)) :: rat) \<le> of_int (j * 2 ^ k)"
      by (simp only: of_int_le_iff)
    then have "of_int (roundHalfEven (x / u)) * u \<le> of_int (j * 2 ^ k) * u"
      using upos by (simp only: mult_le_cancel_right) simp
    then show "fl x \<le> of_int j / 16" by (simp only: grid f)
  qed
qed


lemma fl_zero: "fl 0 = 0"
  by (simp add: fl_def)

lemma seed_index:
  fixes n i :: nat
  assumes n: "n < 2 ^ 32" and i: "1 \<le> i" "i \<le> 4"
    and lo: "of_nat i / 5 \<le> s" and hi: "s \<le> of_nat i / 5 + 1 / 2 ^ 52"
  shows "\<lfloor>fl (s * of_nat n)\<rfloor> = int (i * n div 5)"
proof (cases "n = 0")
  case True
  then show ?thesis by (simp add: fl_zero)
next
  case False
  define m where "m = i * n div 5"
  define r where "r = i * n mod 5"
  define x where "x = s * of_nat n"
  have npos: "(0::rat) < of_nat n" using False by simp
  have nle: "(of_nat n :: rat) \<le> 2 ^ 32"
  proof -
    have "(of_nat n :: rat) \<le> of_nat (2 ^ 32)" using n by (simp only: of_nat_le_iff)
    then show ?thesis by simp
  qed
  have "i * n = 5 * m + r" by (simp add: m_def r_def)
  then have "(of_nat (i * n) :: rat) = of_nat (5 * m + r)" by (simp only:)
  then have split: "(of_nat i :: rat) * of_nat n = 5 * of_nat m + of_nat r" by simp
  have "r \<le> 4" by (simp add: r_def)
  then have "(of_nat r :: rat) \<le> of_nat 4" by (simp only: of_nat_le_iff)
  then have rle: "(of_nat r :: rat) \<le> 4" by simp
  have rge: "(0::rat) \<le> of_nat r" by simp
  have mge: "(0::rat) \<le> of_nat m" by simp
  have "(of_nat i :: rat) \<le> of_nat 4" using i(2) by (simp only: of_nat_le_iff)
  then have ile: "(of_nat i :: rat) \<le> 4" by simp
  have "(of_nat 1 :: rat) \<le> of_nat i" using i(1) by (simp only: of_nat_le_iff)
  then have ige: "(1::rat) \<le> of_nat i" by simp
  have spos: "0 < s" using lo ige by simp
  have xpos: "0 < x" using spos npos by (simp add: x_def)
  have x_lo: "of_nat i * of_nat n / 5 \<le> x"
  proof -
    have "of_nat i / 5 * of_nat n \<le> s * of_nat n"
      using lo npos by (simp only: mult_le_cancel_right) simp
    then show ?thesis by (simp add: x_def)
  qed
  have x_hi: "x \<le> of_nat i * of_nat n / 5 + 1 / 1048576"
  proof -
    have "s * of_nat n \<le> (of_nat i / 5 + 1 / 2 ^ 52) * of_nat n"
      using hi npos by (simp only: mult_le_cancel_right) simp
    also have "\<dots> = of_nat i * of_nat n / 5 + of_nat n / 2 ^ 52"
      by (simp add: algebra_simps)
    also have "\<dots> \<le> of_nat i * of_nat n / 5 + 2 ^ 32 / 2 ^ 52"
      using nle by (simp add: divide_right_mono)
    finally show ?thesis by (simp add: x_def)
  qed
  have fifth: "(of_nat i :: rat) * of_nat n / 5 = of_nat m + of_nat r / 5"
    by (simp only: split) simp
  have m_lo: "of_nat m \<le> x" using x_lo rge unfolding fifth by linarith
  have m_hi: "x \<le> of_nat m + 15 / 16" using x_hi rle unfolding fifth by linarith
  have in_lo: "of_nat i * of_nat n / 5 \<le> (4::rat) * 2 ^ 32 / 5"
  proof -
    have "(of_nat i :: rat) * of_nat n \<le> 4 * 2 ^ 32"
      using ile nle by (intro mult_mono) simp_all
    then show ?thesis by (simp add: divide_right_mono)
  qed
  have x49: "x < 2 ^ 49" using x_hi in_lo by simp
  have g1: "(of_int (16 * int m) :: rat) / 16 = of_nat m" by simp
  have g2: "(of_int (16 * int m + 15) :: rat) / 16 = of_nat m + 15 / 16" by simp
  from fl_grid [OF xpos x49, of "16 * int m"] m_lo have f_lo: "of_nat m \<le> fl x"
    by (simp only: g1)
  from fl_grid [OF xpos x49, of "16 * int m + 15"] m_hi have f_hi: "fl x \<le> of_nat m + 15 / 16"
    by (simp only: g2)
  have "\<lfloor>fl x\<rfloor> = int m"
  proof (rule floor_unique)
    show "of_int (int m) \<le> fl x" using f_lo by simp
    show "fl x < of_int (int m) + 1" using f_hi by simp
  qed
  then show ?thesis by (simp add: x_def m_def)
qed

lemma seed_values:
  "fl (1 / 5) = 3602879701896397 / 18014398509481984"
  "fl (of_nat clusterAmount * (3602879701896397 / 18014398509481984))
     = 3602879701896397 / 4503599627370496"
  "fl (3602879701896397 / 18014398509481984 + 3602879701896397 / 18014398509481984)
     = 3602879701896397 / 9007199254740992"
  "fl (3602879701896397 / 9007199254740992 + 3602879701896397 / 18014398509481984)
     = 1351079888211149 / 2251799813685248"
  "fl (1351079888211149 / 2251799813685248 + 3602879701896397 / 18014398509481984)
     = 3602879701896397 / 4503599627370496"
  "fl (3602879701896397 / 4503599627370496 + 3602879701896397 / 18014398509481984) = 1"
  by code_simp+

lemma initialCentroids_seeds:
  "initialCentroids coordinates =
     Some (map (\<lambda>seed. elementAt coordinates \<lfloor>fl (seed * of_nat (length coordinates))\<rfloor>)
       [3602879701896397 / 18014398509481984, 3602879701896397 / 9007199254740992,
        1351079888211149 / 2251799813685248, 3602879701896397 / 4503599627370496])"
  unfolding initialCentroids_def
  apply (simp only: seed_values)
  apply (subst seedLoop.simps, simp only: seed_values, simp)
  apply (subst seedLoop.simps, simp only: seed_values, simp)
  apply (subst seedLoop.simps, simp only: seed_values, simp)
  apply (subst seedLoop.simps, simp only: seed_values, simp)
  apply (subst seedLoop.simps, simp)
  done

lemma initialCentroids_indexes:
  assumes "length coordinates < 2 ^ 32"
  shows "initialCentroids coordinates =
     Some (map (\<lambda>i. elementAt coordinates (int (i * length coordinates div 5))) [1, 2, 3, 4])"
proof -
  have 1: "\<lfloor>fl (3602879701896397 / 18014398509481984 * of_nat (length coordinates))\<rfloor>
           = int (1 * length coordinates div 5)"
    by (rule seed_index [OF assms]) simp_all
  have 2: "\<lfloor>fl (3602879701896397 / 9007199254740992 * of_nat (length coordinates))\<rfloor>
           = int (2 * length coordinates div 5)"
    by (rule seed_index [OF assms]) simp_all
  have 3: "\<lfloor>fl (1351079888211149 / 2251799813685248 * of_nat (length coordinates))\<rfloor>
           = int (3 * length coordinates div 5)"
    by (rule seed_index [OF assms]) simp_all
  have 4: "\<lfloor>fl (3602879701896397 / 4503599627370496 * of_nat (length coordinates))\<rfloor>
           = int (4 * length coordinates div 5)"
    by (rule seed_index [OF assms]) simp_all
  show ?thesis
    unfolding initialCentroids_seeds using 1 2 3 4 by simp
qed


text \<open>
  C9. For a list of \<open>N\<close> items (an array: \<open>N < 2\<^sup>3\<^sup>2\<close>) the seed loop ends after exactly
  \<open>clusterAmount = 4\<close> rounds, and the centroids it has collected are the reads of the
  coordinates at the indexes \<open>\<lfloor>N / 5\<rfloor>\<close>, \<open>\<lfloor>2 N / 5\<rfloor>\<close>, \<open>\<lfloor>3 N / 5\<rfloor>\<close> and \<open>\<lfloor>4 N / 5\<rfloor>\<close>;
  these are the centroids the k-means strategy hands to the primitive. They are a
  function of the coordinates alone.
\<close>

theorem initial_centroids_deterministic:
  assumes "length items < 2 ^ 32"
  shows "initialCentroids (coordinatesOf h items)
           = Some (map (\<lambda>i. elementAt (coordinatesOf h items) (int (i * length items div 5)))
                     [1, 2, 3, 4])
         \<and> KMeans_computeClusters km h items
           = Some (clustersOfIndexes h items
                (km (coordinatesOf h items) clusterAmount
                   (map (\<lambda>i. elementAt (coordinatesOf h items) (int (i * length items div 5)))
                      [1, 2, 3, 4])))"
proof -
  have l: "length (coordinatesOf h items) = length items"
    by (simp add: coordinatesOf_def)
  with assms have "length (coordinatesOf h items) < 2 ^ 32" by simp
  from initialCentroids_indexes [OF this]
  have c: "initialCentroids (coordinatesOf h items)
           = Some (map (\<lambda>i. elementAt (coordinatesOf h items) (int (i * length items div 5)))
                     [1, 2, 3, 4])"
    by (simp only: l)
  then show ?thesis by (simp add: KMeans_computeClusters_def Let_def)
qed

theorem initial_centroids_deterministic_witness:
  "length [0, 1, 2, 3, 4 :: nat] < 2 ^ 32
   \<and> initialCentroids
       (coordinatesOf (\<lambda>r. \<lparr>index = r, fromPosition = (of_nat r, 0), answers = []\<rparr>)
          [0, 1, 2, 3, 4])
     = Some [Some [1, 0], Some [2, 0], Some [3, 0], Some [4, 0]]"
proof -
  have l: "length [0, 1, 2, 3, 4 :: nat] < 2 ^ 32" by simp
  from initial_centroids_deterministic
    [OF l, of "\<lambda>r. \<lparr>index = r, fromPosition = (of_nat r, 0), answers = []\<rparr>"] l
  show ?thesis by (simp add: coordinatesOf_def elementAt_def)
qed

section \<open>The cluster assignment strategies are partitions\<close>

lemma length_takeWhile_neq:
  "v \<in> set xs \<Longrightarrow> length (takeWhile (\<lambda>w. w \<noteq> v) xs) < length xs"
  by (induction xs) auto

lemma mset_concat_map: "mset (concat (map g ls)) = sum_list (map (\<lambda>l. mset (g l)) ls)"
  by (induction ls) simp_all

lemma indexOf_first:
  assumes "v \<in> set xs"
  shows "indexOf xs v = int (length (takeWhile (\<lambda>w. w \<noteq> v) xs))"
    and "length (takeWhile (\<lambda>w. w \<noteq> v) xs) < length xs"
    and "xs ! length (takeWhile (\<lambda>w. w \<noteq> v) xs) = v"
proof -
  show "indexOf xs v = int (length (takeWhile (\<lambda>w. w \<noteq> v) xs))"
    using assms by (simp add: indexOf_def)
  show l: "length (takeWhile (\<lambda>w. w \<noteq> v) xs) < length xs"
    using assms by (rule length_takeWhile_neq)
  show "xs ! length (takeWhile (\<lambda>w. w \<noteq> v) xs) = v"
    using nth_length_takeWhile [OF l] by simp
qed

lemma set_firstOccurrences: "set (firstOccurrences xs) = set xs"
proof
  show "set (firstOccurrences xs) \<subseteq> set xs"
    by (auto simp: firstOccurrences_def dest: set_zip_rightD)
  show "set xs \<subseteq> set (firstOccurrences xs)"
  proof
    fix v assume v: "v \<in> set xs"
    define i where "i = length (takeWhile (\<lambda>w. w \<noteq> v) xs)"
    have "i < length xs" "xs ! i = v" "indexOf xs v = int i"
      using indexOf_first [OF v] by (simp_all add: i_def)
    then have "(i, v) \<in> set (zip [0..<length xs] xs)"
      by (auto simp: in_set_zip intro!: exI [of _ i])
    with \<open>indexOf xs v = int i\<close> show "v \<in> set (firstOccurrences xs)"
      by (force simp: firstOccurrences_def)
  qed
qed

lemma distinct_firstOccurrences: "distinct (firstOccurrences xs)"
proof -
  let ?ps = "filter (\<lambda>(i, v). indexOf xs v = int i) (zip [0..<length xs] xs)"
  have "distinct (zip [0..<length xs] xs)" by (simp add: distinct_zipI1)
  then have d: "distinct ?ps" by simp
  have "inj_on snd (set ?ps)"
    by (rule inj_onI) auto
  with d show ?thesis by (simp add: firstOccurrences_def distinct_map)
qed

lemma distinct_concat_unique:
  assumes "distinct (concat xss)" and "j < length xss" and "k < length xss"
    and "x \<in> set (xss ! j)" and "x \<in> set (xss ! k)"
  shows "j = k"
  using assms
proof (induction xss arbitrary: j k)
  case Nil
  then show ?case by simp
next
  case (Cons ys xss)
  show ?case
  proof (cases j)
    case 0
    show ?thesis
    proof (cases k)
      case 0
      with \<open>j = 0\<close> show ?thesis by simp
    next
      case (Suc k')
      with Cons.prems 0 have "x \<in> set ys" "x \<in> set (concat xss)" by auto
      with Cons.prems(1) show ?thesis by auto
    qed
  next
    case (Suc j')
    show ?thesis
    proof (cases k)
      case 0
      with Cons.prems Suc have "x \<in> set ys" "x \<in> set (concat xss)" by auto
      with Cons.prems(1) show ?thesis by auto
    next
      case (Suc k')
      with Cons.prems \<open>j = Suc j'\<close> have "j' = k'"
        by (intro Cons.IH) auto
      with Suc \<open>j = Suc j'\<close> show ?thesis by simp
    qed
  qed
qed

lemma strictPartition_concat:
  assumes "mset (concat (map itemPairs cs)) = mset items" and "distinct items"
  shows "strictPartition cs items"
proof -
  have s: "set (concat (map itemPairs cs)) = set items"
    using assms(1) by (rule mset_eq_setD)
  have d: "distinct (concat (map itemPairs cs))"
    using mset_eq_imp_distinct_iff [OF assms(1)] assms(2) by blast
  have u: "(\<Union>c \<in> set cs. set (itemPairs c)) = set items"
    using s by simp
  have "\<exists>!j. j < length cs \<and> item \<in> set (itemPairs (cs ! j))" if "item \<in> set items" for item
  proof -
    from that u obtain c where "c \<in> set cs" "item \<in> set (itemPairs c)" by blast
    then obtain j where j: "j < length cs" "item \<in> set (itemPairs (cs ! j))"
      by (auto simp: in_set_conv_nth)
    show ?thesis
    proof (rule ex1I [of _ j])
      show "j < length cs \<and> item \<in> set (itemPairs (cs ! j))" using j by simp
    next
      fix k assume k: "k < length cs \<and> item \<in> set (itemPairs (cs ! k))"
      show "k = j"
        using distinct_concat_unique [OF d, of k j item] j k by simp
    qed
  qed
  with u show ?thesis by (simp add: strictPartition_def)
qed

lemma sum_list_indicator:
  "distinct ls \<Longrightarrow> sum_list (map (\<lambda>l. if a = l then m else {#}) ls)
     = (if a \<in> set ls then m else {#})"
  by (induction ls) auto

lemma mset_filter_by_label:
  assumes "distinct ls" and "\<forall>x \<in> set xs. \<exists>l \<in> set ls. f x = Some l"
  shows "mset (concat (map (\<lambda>l. filter (\<lambda>x. f x = Some l) xs) ls)) = mset xs"
  using assms(2)
proof (induction xs)
  case Nil
  show ?case by (simp add: mset_concat_map)
next
  case (Cons x xs)
  then obtain a where a: "a \<in> set ls" "f x = Some a" by auto
  have ih: "sum_list (map (\<lambda>l. mset (filter (\<lambda>x. f x = Some l) xs)) ls) = mset xs"
    using Cons by (simp only: mset_concat_map) simp
  have ind: "sum_list (map (\<lambda>l. if a = l then {#x#} else {#}) ls) = {#x#}"
    using a(1) by (simp add: sum_list_indicator [OF assms(1)])
  have "sum_list (map (\<lambda>l. mset (filter (\<lambda>y. f y = Some l) (x # xs))) ls)
        = sum_list (map (\<lambda>l. (if a = l then {#x#} else {#})
                              + mset (filter (\<lambda>y. f y = Some l) xs)) ls)"
    by (rule arg_cong [where f = sum_list]) (auto simp: a(2))
  also have "\<dots> = sum_list (map (\<lambda>l. if a = l then {#x#} else {#}) ls)
                  + sum_list (map (\<lambda>l. mset (filter (\<lambda>y. f y = Some l) xs)) ls)"
    by (rule sum_list_addf)
  also have "\<dots> = {#x#} + mset xs"
    by (simp only: ih ind)
  finally show ?case by (simp only: mset_concat_map) simp
qed


lemma aligned_distinct: "aligned h items \<Longrightarrow> distinct items"
proof -
  assume "aligned h items"
  then have "distinct (map (\<lambda>item. index (h item)) items)" by (simp add: aligned_def)
  then show ?thesis by (simp add: distinct_map)
qed

lemma aligned_index:
  assumes "aligned h items" and "item \<in> set items"
  shows "index (h item) < length items"
proof -
  have "index (h item) \<in> set (map (\<lambda>item. index (h item)) items)" using assms(2) by simp
  then have "index (h item) \<in> set [0..<length items]" using assms(1) by (simp only: aligned_def)
  then show ?thesis by simp
qed

lemma itemPairs_clustersOfIndexes:
  "map itemPairs (clustersOfIndexes h items labels)
   = map (\<lambda>l. filter (\<lambda>item. elementAt labels (int (index (h item))) = Some l) items)
       (firstOccurrences labels)"
  by (simp add: clustersOfIndexes_def new_Cluster_def comp_def)

lemma ID_clustersOfIndexes:
  "map ID (clustersOfIndexes h items labels) = firstOccurrences labels"
  "map sortingID (clustersOfIndexes h items labels) = firstOccurrences labels"
  by (simp_all add: clustersOfIndexes_def new_Cluster_def comp_def)

lemma mset_clustersOfIndexes:
  assumes "aligned h items" and "length labels = length items"
  shows "mset (concat (map itemPairs (clustersOfIndexes h items labels))) = mset items"
proof -
  have "\<exists>l \<in> set (firstOccurrences labels). elementAt labels (int (index (h item))) = Some l"
    if "item \<in> set items" for item
  proof -
    have "index (h item) < length labels"
      using aligned_index [OF assms(1) that] assms(2) by simp
    then show ?thesis by (simp add: elementAt_def set_firstOccurrences)
  qed
  then show ?thesis
    unfolding itemPairs_clustersOfIndexes
    by (intro mset_filter_by_label distinct_firstOccurrences) blast
qed

lemma concat_fillClusters:
  "concat (map itemPairs (fillClusters i t ns sh)) = take (sum_list ns) (drop t sh)"
proof (induction ns arbitrary: i t)
  case Nil
  show ?case by simp
next
  case (Cons n ns)
  have "take n (drop t sh) @ take (sum_list ns) (drop (t + n) sh)
        = take (n + sum_list ns) (drop t sh)"
    by (simp add: take_add add.commute)
  with Cons show ?case by (simp add: new_Cluster_def)
qed

lemma ID_fillClusters:
  "map ID (fillClusters i t ns sh) = map int [i..<i + length ns]"
  "map sortingID (fillClusters i t ns sh) = map int [i..<i + length ns]"
  by (induction ns arbitrary: i t) (simp_all add: new_Cluster_def upt_rec)

lemma length_fillClusters: "length (fillClusters i t ns sh) = length ns"
  by (induction ns arbitrary: i t) simp_all

lemma initialCentroids_Some: "\<exists>cents. initialCentroids coordinates = Some cents"
  by (simp add: initialCentroids_seeds)

lemma KMeans_computeClusters_eq:
  "\<exists>cents. KMeans_computeClusters km h items
      = Some (clustersOfIndexes h items (km (coordinatesOf h items) clusterAmount cents))"
  using initialCentroids_Some [of "coordinatesOf h items"]
  by (auto simp: KMeans_computeClusters_def Let_def)

lemma Random_computeClusters_eq:
  "KMeans_computeClusters km h items = Some kcs \<Longrightarrow>
   Random_computeClusters km rnd h items
     = Some (fillClusters 0 0 (map (\<lambda>c. length (itemPairs c)) kcs) (shuffleArray rnd items))"
  by (simp add: Random_computeClusters_def Let_def)

lemma mset_random_clusters:
  assumes "mset (concat (map itemPairs kcs)) = mset items"
  shows "mset (concat (map itemPairs
           (fillClusters 0 0 (map (\<lambda>c. length (itemPairs c)) kcs) (shuffleArray rnd items))))
         = mset items"
proof -
  have "sum_list (map (\<lambda>c. length (itemPairs c)) kcs) = length (concat (map itemPairs kcs))"
    by (simp add: length_concat comp_def)
  also have "\<dots> = length items" using assms by (rule mset_eq_length)
  finally have "sum_list (map (\<lambda>c. length (itemPairs c)) kcs) = length (shuffleArray rnd items)"
    by (simp add: length_shuffleArray)
  then show ?thesis by (simp add: concat_fillClusters mset_shuffleArray)
qed


lemma length_le_of_range:
  assumes "distinct (ls :: int list)" and "\<forall>l \<in> set ls. 0 \<le> l \<and> l < int n"
  shows "length ls \<le> n"
proof -
  have "set ls \<subseteq> int ` {0..<n}"
  proof
    fix l assume "l \<in> set ls"
    with assms(2) have "0 \<le> l" "l < int n" by auto
    then have "nat l \<in> {0..<n}" "l = int (nat l)" by auto
    then show "l \<in> int ` {0..<n}" by blast
  qed
  then have "card (set ls) \<le> card (int ` {0..<n})" by (intro card_mono) simp_all
  also have "\<dots> \<le> card {0..<n}" by (rule card_image_le) simp
  finally show ?thesis using assms(1) by (simp add: distinct_card)
qed

text \<open>
  C5, as the code has it. Let the index of every item be its position in the list, and let
  the primitive return one label for every item, each in \<open>[0, K)\<close> with \<open>K = 4\<close>. Then both
  strategies return a strict partition of the items: the members of the clusters together
  are the items, and every item is in exactly one cluster. There is one cluster for every
  label that occurs, so at most \<open>K\<close> clusters and not always \<open>K\<close>; the ids of the k-means
  clusters are pairwise distinct, and the random strategy has as many clusters, with the
  ids \<open>0, 1, \<dots>\<close> in this order and no gap.
\<close>

theorem strategies_partition:
  assumes "aligned h items"
    and "\<forall>cents. length (km (coordinatesOf h items) clusterAmount cents) = length items"
    and "\<forall>cents. \<forall>l \<in> set (km (coordinatesOf h items) clusterAmount cents).
           0 \<le> l \<and> l < int clusterAmount"
  shows "\<exists>kcs rcs.
           KMeans_computeClusters km h items = Some kcs
           \<and> Random_computeClusters km rnd h items = Some rcs
           \<and> strictPartition kcs items \<and> strictPartition rcs items
           \<and> distinct (map ID kcs)
           \<and> length kcs \<le> clusterAmount
           \<and> length rcs = length kcs
           \<and> map ID rcs = map int [0..<length rcs]"
proof -
  from KMeans_computeClusters_eq [of km h items] obtain cents where
    k: "KMeans_computeClusters km h items
        = Some (clustersOfIndexes h items (km (coordinatesOf h items) clusterAmount cents))"
    by blast
  define labels where "labels = km (coordinatesOf h items) clusterAmount cents"
  define kcs where "kcs = clustersOfIndexes h items labels"
  define rcs where
    "rcs = fillClusters 0 0 (map (\<lambda>c. length (itemPairs c)) kcs) (shuffleArray rnd items)"
  have l: "length labels = length items" using assms(2) by (simp add: labels_def)
  have rg: "\<forall>l \<in> set labels. 0 \<le> l \<and> l < int clusterAmount"
    using assms(3) by (simp add: labels_def)
  have d: "distinct items" using assms(1) by (rule aligned_distinct)
  have km: "KMeans_computeClusters km h items = Some kcs"
    using k by (simp add: kcs_def labels_def)
  have rm: "Random_computeClusters km rnd h items = Some rcs"
    using Random_computeClusters_eq [OF km] by (simp add: rcs_def)
  have mk: "mset (concat (map itemPairs kcs)) = mset items"
    unfolding kcs_def using assms(1) l by (rule mset_clustersOfIndexes)
  have mr: "mset (concat (map itemPairs rcs)) = mset items"
    unfolding rcs_def using mk by (rule mset_random_clusters)
  have pk: "strictPartition kcs items" using mk d by (rule strictPartition_concat)
  have pr: "strictPartition rcs items" using mr d by (rule strictPartition_concat)
  have ik: "distinct (map ID kcs)"
    by (simp add: kcs_def ID_clustersOfIndexes distinct_firstOccurrences)
  have "length (firstOccurrences labels) \<le> clusterAmount"
    using distinct_firstOccurrences rg
    by (intro length_le_of_range) (simp_all add: set_firstOccurrences)
  then have lk: "length kcs \<le> clusterAmount"
    by (simp add: kcs_def clustersOfIndexes_def)
  have lr: "length rcs = length kcs" by (simp add: rcs_def length_fillClusters)
  have ir: "map ID rcs = map int [0..<length rcs]"
    by (simp add: rcs_def ID_fillClusters length_fillClusters)
  from km rm pk pr ik lk lr ir show ?thesis by blast
qed



text \<open>The instance: three items with the labels 0, 2, 0.\<close>

theorem strategies_partition_witness:
  "aligned ex_positions [0, 1, 2]
   \<and> KMeans_computeClusters (\<lambda>coordinates k cents. [0, 2, 0]) ex_positions [0, 1, 2]
       = Some [\<lparr>ID = 0, sortingID = 0, timesSeen = 0, itemPairs = [0, 2]\<rparr>,
               \<lparr>ID = 2, sortingID = 2, timesSeen = 0, itemPairs = [1]\<rparr>]
   \<and> Random_computeClusters (\<lambda>coordinates k cents. [0, 2, 0]) (\<lambda>i. - of_nat i)
         ex_positions [0, 1, 2]
       = Some [\<lparr>ID = 0, sortingID = 0, timesSeen = 0, itemPairs = [2, 1]\<rparr>,
               \<lparr>ID = 1, sortingID = 1, timesSeen = 0, itemPairs = [0]\<rparr>]
   \<and> strictPartition [\<lparr>ID = 0, sortingID = 0, timesSeen = 0, itemPairs = [0, 2]\<rparr>,
                       \<lparr>ID = 2, sortingID = 2, timesSeen = 0, itemPairs = [1]\<rparr>] [0, 1, 2]
   \<and> strictPartition [\<lparr>ID = 0, sortingID = 0, timesSeen = 0, itemPairs = [2, 1]\<rparr>,
                       \<lparr>ID = 1, sortingID = 1, timesSeen = 0, itemPairs = [0]\<rparr>] [0, 1, 2]"
proof -
  have a: "aligned ex_positions [0, 1, 2]"
    by (simp add: aligned_def upt_rec)
  have l: "\<forall>cents. length ((\<lambda>coordinates k cents. [0, 2, 0])
             (coordinatesOf ex_positions [0, 1, 2]) clusterAmount cents) = length [0, 1, 2 :: nat]"
    by simp
  have r: "\<forall>cents. \<forall>l \<in> set ((\<lambda>coordinates k cents. [0, 2, 0])
             (coordinatesOf ex_positions [0, 1, 2]) clusterAmount cents).
             0 \<le> l \<and> l < int clusterAmount"
    by (simp add: clusterAmount_def)
  have k: "KMeans_computeClusters (\<lambda>coordinates k cents. [0, 2, 0]) ex_positions [0, 1, 2]
      = Some [\<lparr>ID = 0, sortingID = 0, timesSeen = 0, itemPairs = [0, 2]\<rparr>,
              \<lparr>ID = 2, sortingID = 2, timesSeen = 0, itemPairs = [1]\<rparr>]"
    by (simp add: KMeans_computeClusters_def initialCentroids_seeds clustersOfIndexes_def
        firstOccurrences_def indexOf_def elementAt_def new_Cluster_def coordinatesOf_def upt_rec)
  have sh: "shuffleArray (\<lambda>i. - of_nat i) [0, 1, 2] = [2, 1, 0]"
    by code_simp
  have rc: "Random_computeClusters (\<lambda>coordinates k cents. [0, 2, 0]) (\<lambda>i. - of_nat i)
              ex_positions [0, 1, 2]
      = Some [\<lparr>ID = 0, sortingID = 0, timesSeen = 0, itemPairs = [2, 1]\<rparr>,
              \<lparr>ID = 1, sortingID = 1, timesSeen = 0, itemPairs = [0]\<rparr>]"
    unfolding Random_computeClusters_eq [OF k] sh by (simp add: new_Cluster_def)
  from strategies_partition [OF a l r, of "\<lambda>i. - of_nat i"] obtain kcs rcs where
    "KMeans_computeClusters (\<lambda>coordinates k cents. [0, 2, 0]) ex_positions [0, 1, 2] = Some kcs"
    "Random_computeClusters (\<lambda>coordinates k cents. [0, 2, 0]) (\<lambda>i. - of_nat i)
       ex_positions [0, 1, 2] = Some rcs"
    "strictPartition kcs [0, 1, 2]" "strictPartition rcs [0, 1, 2]"
    by blast
  with k rc a show ?thesis by simp
qed

text \<open>
  Against C5 as stated: for a list of one item the primitive returns one label, whichever,
  and both strategies return one cluster; its id is not the four ids \<open>0, 1, 2, 3\<close>.
\<close>

theorem one_item_one_cluster:
  "KMeans_computeClusters (\<lambda>coordinates k cents. [0]) ex_positions [0]
     = Some [\<lparr>ID = 0, sortingID = 0, timesSeen = 0, itemPairs = [0]\<rparr>]
   \<and> Random_computeClusters (\<lambda>coordinates k cents. [0]) (\<lambda>i. 0) ex_positions [0]
     = Some [\<lparr>ID = 0, sortingID = 0, timesSeen = 0, itemPairs = [0]\<rparr>]
   \<and> map ID [\<lparr>ID = 0, sortingID = 0, timesSeen = 0, itemPairs = [0]\<rparr>]
       \<noteq> map int [0..<clusterAmount]"
proof -
  have k: "KMeans_computeClusters (\<lambda>coordinates k cents. [0]) ex_positions [0]
     = Some [\<lparr>ID = 0, sortingID = 0, timesSeen = 0, itemPairs = [0]\<rparr>]"
    by (simp add: KMeans_computeClusters_def initialCentroids_seeds clustersOfIndexes_def
        firstOccurrences_def indexOf_def elementAt_def new_Cluster_def coordinatesOf_def)
  have sh: "shuffleArray (\<lambda>i. 0) [0] = [0]"
    by code_simp
  have r: "Random_computeClusters (\<lambda>coordinates k cents. [0]) (\<lambda>i. 0) ex_positions [0]
     = Some [\<lparr>ID = 0, sortingID = 0, timesSeen = 0, itemPairs = [0]\<rparr>]"
    unfolding Random_computeClusters_eq [OF k] sh by (simp add: new_Cluster_def)
  have n: "map ID [\<lparr>ID = 0, sortingID = 0, timesSeen = 0, itemPairs = [0]\<rparr>]
           \<noteq> map int [0..<clusterAmount]"
    by (simp add: clusterAmount_def upt_rec)
  from k r n show ?thesis by simp
qed

section \<open>The domain of sortingID\<close>

text \<open>
  The rotation keeps every \<open>sortingID\<close> in \<open>[0, numClusters)\<close>, and the random strategy
  starts there: it numbers its clusters by their position.
\<close>

lemma sortingID_getTimesSeen: "sortingID (fst (getTimesSeen h c)) = sortingID c"
  by (simp add: getTimesSeen_def Let_def)

lemma sortingIDs_ok_clusterCheck:
  assumes "sortingIDs_ok s" and "c \<in> set (clusters s)"
  shows "sortingIDs_ok (clusterCheck h s cur c)"
proof -
  define c' where "c' = fst (getTimesSeen h c)"
  define cs2 where "cs2 = (clusters s)[clusterPosition (clusters s) cur := c']"
  define n where "n = length (clusters s)"
  have n: "0 < n" using assms(2) by (auto simp: n_def)
  have l2: "length cs2 = n" by (simp add: cs2_def n_def)
  have "set cs2 \<subseteq> insert c' (set (clusters s))"
    unfolding cs2_def by (rule set_update_subset_insert)
  moreover have "0 \<le> sortingID c' \<and> sortingID c' < int n"
    using assms by (simp add: c'_def sortingID_getTimesSeen sortingIDs_ok_def list_all_iff n_def)
  ultimately have in2: "\<forall>d \<in> set cs2. 0 \<le> sortingID d \<and> sortingID d < int n"
    using assms(1) by (auto simp: sortingIDs_ok_def list_all_iff n_def)
  have rot: "\<forall>d \<in> set (map (increaseSortingID n) cs2). 0 \<le> sortingID d \<and> sortingID d < int n"
  proof
    fix d assume "d \<in> set (map (increaseSortingID n) cs2)"
    then obtain e where e: "e \<in> set cs2" "d = increaseSortingID n e" by auto
    with in2 have "0 \<le> sortingID e" by simp
    then have "js_rem (sortingID e + 1) (int n) = (sortingID e + 1) mod int n"
      by (simp add: js_rem_def)
    with n e(2) show "0 \<le> sortingID d \<and> sortingID d < int n"
      by (simp add: increaseSortingID_def)
  qed
  have "clusters (clusterCheck h s cur c) = cs2
        \<or> clusters (clusterCheck h s cur c) = map (increaseSortingID n) cs2"
    by (simp add: clusterCheck_def Let_def cs2_def c'_def n_def split: prod.splits)
  then show ?thesis
  proof
    assume "clusters (clusterCheck h s cur c) = cs2"
    with in2 l2 show ?thesis by (simp add: sortingIDs_ok_def list_all_iff)
  next
    assume "clusters (clusterCheck h s cur c) = map (increaseSortingID n) cs2"
    with rot l2 show ?thesis by (simp add: sortingIDs_ok_def list_all_iff)
  qed
qed

lemma sortingIDs_ok_roundCheck: "sortingIDs_ok s \<Longrightarrow> sortingIDs_ok (roundCheck h s cur)"
  by (simp add: sortingIDs_ok_def list_all_iff roundCheck_clusters)

lemma sortingIDs_ok_updateToDo:
  assumes "sortingIDs_ok s"
  shows "sortingIDs_ok (fst (updateToDo rnd h s todo current))"
proof -
  have "sortingIDs_ok (clusterCheck h (roundCheck h s cur) cur c)"
    if "c \<in> set (clusters s)" for cur c
    using that assms
    by (intro sortingIDs_ok_clusterCheck sortingIDs_ok_roundCheck)
      (simp_all add: roundCheck_clusters)
  with fst_updateToDo_cluster_cases [of rnd h s todo current] assms
  show ?thesis by (auto simp: sortingIDs_ok_roundCheck)
qed

lemma reaches_sortingIDs_ok: "reaches s0 s \<Longrightarrow> sortingIDs_ok s0 \<Longrightarrow> sortingIDs_ok s"
  by (induction rule: reaches.induct) (simp_all add: sortingIDs_ok_updateToDo)

lemma sortingIDs_ok_random:
  assumes "new_RandomClusteringAlgorithm km rnd h items = Some s0"
  shows "sortingIDs_ok s0"
proof -
  from assms obtain rcs where r: "Random_computeClusters km rnd h items = Some rcs"
    and s0: "s0 = new_ClusteringAlgorithm items (\<lambda>_. rcs)"
    by (auto simp: new_RandomClusteringAlgorithm_def)
  from r obtain ns sh where f: "rcs = fillClusters 0 0 ns sh"
    by (auto simp: Random_computeClusters_def Let_def split: option.splits)
  have "map sortingID rcs = map int [0..<length rcs]"
    by (simp add: f ID_fillClusters length_fillClusters)
  then have "set (map sortingID rcs) = int ` {0..<length rcs}"
    by (simp only:) simp
  then have "\<forall>c \<in> set rcs. sortingID c \<in> int ` {0..<length rcs}"
    by auto
  then show ?thesis
    by (auto simp: sortingIDs_ok_def list_all_iff s0 new_ClusteringAlgorithm_def)
qed

text \<open>
  C6 at a session of the k-means strategy on two items at the positions \<open>(0, 0)\<close> and
  \<open>(1, 1)\<close>. The centroids handed to the primitive are the first position twice and the
  second position twice, and the labels 0 and 2 are those of the nearest centroids. The
  constructor makes the two clusters with the ids 0 and 2, and \<open>sortingID = 2\<close> is not in
  \<open>[0, 2)\<close>; the first rotation then gives both clusters the \<open>sortingID\<close> 1.
\<close>

theorem kmeans_sortingID_out_of_range:
  "initialCentroids (coordinatesOf ex_positions [0, 1])
     = Some [Some [0, 0], Some [0, 0], Some [1, 1], Some [1, 1]]
   \<and> new_KMeansClusteringAlgorithm (\<lambda>coordinates k cents. [0, 2]) ex_positions [0, 1]
       = Some ex_gap_sched
   \<and> \<not> sortingIDs_ok ex_gap_sched
   \<and> map sortingID (map (increaseSortingID (length (clusters ex_gap_sched)))
        (clusters ex_gap_sched)) = [1, 1]"
proof -
  have c: "initialCentroids (coordinatesOf ex_positions [0, 1])
     = Some [Some [0, 0], Some [0, 0], Some [1, 1], Some [1, 1]]"
    using initialCentroids_indexes [of "coordinatesOf ex_positions [0, 1]"]
    by (simp add: coordinatesOf_def elementAt_def)
  have k: "KMeans_computeClusters (\<lambda>coordinates k cents. [0, 2]) ex_positions [0, 1]
     = Some [\<lparr>ID = 0, sortingID = 0, timesSeen = 0, itemPairs = [0]\<rparr>,
             \<lparr>ID = 2, sortingID = 2, timesSeen = 0, itemPairs = [1]\<rparr>]"
    by (simp add: KMeans_computeClusters_def initialCentroids_seeds clustersOfIndexes_def
        firstOccurrences_def indexOf_def elementAt_def new_Cluster_def upt_rec)
  have n: "new_KMeansClusteringAlgorithm (\<lambda>coordinates k cents. [0, 2]) ex_positions [0, 1]
     = Some ex_gap_sched"
    unfolding new_KMeansClusteringAlgorithm_def k
    by (simp add: new_ClusteringAlgorithm_def rounds_at_def)
  have o: "\<not> sortingIDs_ok ex_gap_sched"
    by (simp add: sortingIDs_ok_def list_all_iff)
  have r: "map sortingID (map (increaseSortingID (length (clusters ex_gap_sched)))
        (clusters ex_gap_sched)) = [1, 1]"
    by (simp add: increaseSortingID_def js_rem_def)
  from c n o r show ?thesis by simp
qed

end
